theory Spec2Isabelle
  imports Complex_Main
begin

section \<open>Haircard generation (\<open>human/hair/haircards.py\<close>): the model\<close>

text \<open>
  The embedding follows \<open>HairCollection\<close>. numpy arrays are lists (nested lists for
  higher ranks), coordinates are triples of reals, Python integers are \<open>nat\<close> or \<open>int\<close>.
  Floating-point numbers are idealised as \<open>real\<close>: rounding of float arithmetic is not
  part of the model.
\<close>

subsection \<open>Exceptions and the host's mesh type\<close>

text \<open>The exceptions of the Python code that the model keeps as values.\<close>

datatype error =
  IndexError | RuntimeError | KeyError | RecursionError | ValueError | ZeroDivisionError
  | AttributeError

text \<open>
  A \<open>bmesh\<close> edge has its two vertices (by index) and the host's \<open>is_boundary\<close> flag; a
  vertex has the list of its \<open>link_edges\<close>; its index is its position in \<open>bm.verts\<close>.
\<close>

record bmedge =
  verts :: "nat \<times> nat"
  is_boundary :: bool

record bmvert =
  link_edges :: "bmedge list"

record bmesh =
  bm_verts :: "bmvert list"
  bm_edges :: "bmedge list"


subsection \<open>Strand classification and downsampling (\<open>create_mesh\<close>, lines 97--114)\<close>

text \<open>
  \<open>self.hairs\<close> is a list of pairs \<open>(hair, length)\<close>. The three list comprehensions of
  \<open>create_mesh\<close>:
  \<^verbatim>\<open>long_hairs = [hair for hair, length in self.hairs if length > 0.1]\<close>
  \<^verbatim>\<open>medium_hairs = [hair for hair, length in self.hairs if 0.1 >= length > 0.05]\<close>
  \<^verbatim>\<open>short_hairs = [hair for hair, length in self.hairs if 0.05 >= length]\<close>
\<close>

definition long_hairs :: "('h \<times> real) list \<Rightarrow> 'h list" where
  "long_hairs hairs = map fst (filter (\<lambda>(hair, len). len > 0.1) hairs)"

definition medium_hairs :: "('h \<times> real) list \<Rightarrow> 'h list" where
  "medium_hairs hairs = map fst (filter (\<lambda>(hair, len). 0.1 \<ge> len \<and> len > 0.05) hairs)"

definition short_hairs :: "('h \<times> real) list \<Rightarrow> 'h list" where
  "short_hairs hairs = map fst (filter (\<lambda>(hair, len). 0.05 \<ge> len) hairs)"

text \<open>The quality argument is one of four literals; \<open>quality_dict\<close> maps it to a 5-tuple.\<close>

datatype quality = Low | Medium | High | Ultra

type_synonym quality_tuple = "nat \<times> nat \<times> nat \<times> real \<times> real"

fun quality_dict :: "quality \<Rightarrow> quality_tuple" where
  "quality_dict Ultra = (1, 5, 6, 0.002, 0.5)"
| "quality_dict High = (3, 6, 6, 0.003, 1)"
| "quality_dict Medium = (6, 12, 14, 0.005, 1)"
| "quality_dict Low = (15, 20, 20, 0.005, 2)"

text \<open>
  \<open>chosen_quality[i]\<close> for the loop index \<open>i\<close> of \<open>enumerate((short_hairs, medium_hairs,
  long_hairs))\<close>, which only takes the values 0, 1 and 2.
\<close>

fun chosen_stride :: "quality_tuple \<Rightarrow> nat \<Rightarrow> nat" where
  "chosen_stride (s0, s1, s2, eps, width) i = (if i = 0 then s0 else if i = 1 then s1 else s2)"

text \<open>
  The extended slice \<open>hair_list[::N]\<close>: take the head, skip to the element \<open>N\<close> places
  further, repeat. Python raises ValueError for \<open>N = 0\<close>; no quality tier has a zero
  stride, and the model returns the empty list there.
\<close>

function slice_step :: "nat \<Rightarrow> 'a list \<Rightarrow> 'a list" where
  "slice_step N xs = (if N = 0 \<or> xs = [] then [] else hd xs # slice_step N (drop N xs))"
  by pat_completeness auto
termination
  by (relation "measure (\<lambda>(N, xs). length xs)") auto

declare slice_step.simps [simp del]

text \<open>The body of the loop over the three buckets (lines 111--114).\<close>

definition extend_bucket :: "quality_tuple \<Rightarrow> nat \<Rightarrow> 'a list \<Rightarrow> 'a list" where
  "extend_bucket chosen_quality i hair_list =
     (if length hair_list > 30 then slice_step (chosen_stride chosen_quality i) hair_list
      else hair_list)"

definition all_hairs :: "quality \<Rightarrow> ('h \<times> real) list \<Rightarrow> 'h list" where
  "all_hairs q hairs =
     concat (map (\<lambda>(i, hair_list). extend_bucket (quality_dict q) i hair_list)
                 (enumerate 0 [short_hairs hairs, medium_hairs hairs, long_hairs hairs]))"


subsection \<open>Quad-strip mesh builder (lines 142--152, 182--231, 251--258)\<close>

text \<open>
  A coordinate is a triple of reals; an array of shape \<open>(n, k, 3)\<close> is a list of \<open>n\<close>
  rows of \<open>k\<close> coordinates. The vector operations are numpy's elementwise ones and
  \<open>np.linalg.norm\<close>.
\<close>

type_synonym vec3 = "real \<times> real \<times> real"

fun vadd :: "vec3 \<Rightarrow> vec3 \<Rightarrow> vec3" where
  "vadd (x1, y1, z1) (x2, y2, z2) = (x1 + x2, y1 + y2, z1 + z2)"

fun vsub :: "vec3 \<Rightarrow> vec3 \<Rightarrow> vec3" where
  "vsub (x1, y1, z1) (x2, y2, z2) = (x1 - x2, y1 - y2, z1 - z2)"

fun smul :: "real \<Rightarrow> vec3 \<Rightarrow> vec3" where
  "smul s (x, y, z) = (s * x, s * y, s * z)"

fun vabs :: "vec3 \<Rightarrow> vec3" where
  "vabs (x, y, z) = (\<bar>x\<bar>, \<bar>y\<bar>, \<bar>z\<bar>)"

fun vnorm :: "vec3 \<Rightarrow> real" where
  "vnorm (x, y, z) = sqrt (x * x + y * y + z * z)"

text \<open>
  \<open>np.arange(start, stop, step)\<close> has \<open>ceil((stop - start) / step)\<close> elements
  \<open>start + i * step\<close>. \<open>_calculate_segment_correction\<close> reverses
  \<open>np.arange(0.01, 0.03, 0.02 / hair_co_len)\<close>; its trailing axis of length one (added for
  broadcasting) is left out, the list holds the scalars.
\<close>

definition arange :: "real \<Rightarrow> real \<Rightarrow> real \<Rightarrow> real list" where
  "arange start stop step =
     map (\<lambda>i. start + real i * step) [0..<nat \<lceil>(stop - start) / step\<rceil>]"

definition calculate_segment_correction :: "nat \<Rightarrow> real list" where
  "calculate_segment_correction hair_co_len =
     rev (arange 0.01 0.03 (0.02 / real hair_co_len))"

text \<open>
  \<open>_compute_new_ver_coordinaes\<close>. Broadcasting is written out: the segment correction
  runs along a strand (axis 1), the length correction (1, then 0.8 where the strand
  length is below 0.01, then 0.6 where it is below 0.005) along the strands (axis 0).
  \<open>np.flip(hair_coords, axis=1)\<close> reverses every row; \<open>np.concatenate(..., axis=1)\<close>
  appends the rows pairwise; \<open>reshape((-1, 3))\<close> flattens the first two axes. numpy
  raises on arrays whose shapes do not fit, where \<open>zip\<close> would truncate: the theorems
  below assume the shapes that \<open>create_mesh\<close> passes.
\<close>

definition compute_new_ver_coordinaes ::
  "nat \<Rightarrow> vec3 list list \<Rightarrow> vec3 list list \<Rightarrow> vec3 list list \<Rightarrow> vec3 list \<times> vec3 list"
where
  "compute_new_ver_coordinaes hair_co_len hair_coords nearest_normals perpendicular =
    (let segment_correction = calculate_segment_correction hair_co_len;
         hair_length = map (\<lambda>row. vnorm (vsub (row ! 0) (row ! (length row - 1)))) hair_coords;
         ones = map (\<lambda>_. 1) hair_coords;
         placed = map2 (\<lambda>c l. if l < 0.01 then 0.8 else c) ones hair_length;
         length_correction = map2 (\<lambda>c l. if l < 0.005 then 0.6 else c) placed hair_length;
         perpendicular_offset =
           map2 (\<lambda>row c. map2 (\<lambda>s p. smul c (smul s p)) segment_correction row)
             perpendicular length_correction;
         head_normal_offset =
           map2 (\<lambda>row c. map2 (\<lambda>s n. smul 0.3 (smul c (smul s (vabs n)))) segment_correction row)
             nearest_normals length_correction;
         hair_coords_right = map2 (map2 vadd) hair_coords perpendicular_offset;
         hair_coords_left = map2 (map2 vsub) (map rev hair_coords) perpendicular_offset;
         hair_coords_top = map2 (map2 vadd) hair_coords head_normal_offset;
         hair_coords_bottom = map2 (map2 vsub) hair_coords head_normal_offset;
         new_verts = map2 (@) hair_coords_left hair_coords_right;
         new_verts_parallel = map2 (@) hair_coords_top hair_coords_bottom
     in (concat new_verts, concat new_verts_parallel))"

text \<open>
  \<open>_compute_new_face_vert_idxs\<close>: the two nested \<open>range\<close> loops fill \<open>faces[i, j, :]\<close>;
  \<open>faces_parallel\<close> is a copy. Only the number of strands \<open>len(hair_coords)\<close> is read
  from \<open>hair_coords\<close>. The indices are integers, so that the subtractions are the
  source's.
\<close>

definition compute_new_face_vert_idxs :: "nat \<Rightarrow> 'a list \<Rightarrow> int list list list \<times> int list list list"
where
  "compute_new_face_vert_idxs hair_co_len hair_coords =
    (let faces =
       map (\<lambda>i. map (\<lambda>j.
              (let corr = int i * int hair_co_len * 2
               in [corr + int j,
                   corr + int j + 1,
                   corr + int hair_co_len * 2 - int j - 2,
                   corr + int hair_co_len * 2 - int j - 1]))
            [0..<hair_co_len - 1])
         [0..<length hair_coords];
         faces_parallel = faces
     in (faces, faces_parallel))"

text \<open>
  Lines 142--152 of \<open>create_mesh\<close> for one group of strands: the vertices of the two
  ribbons are concatenated, the faces of the parallel ribbon are offset by
  \<open>len(new_verts)\<close>, and \<open>reshape((-1, 4))\<close> flattens the face array into quads. The
  perpendicular vectors of line 138 are an argument, as they are of
  \<open>_compute_new_ver_coordinaes\<close>.
\<close>

definition assemble_mesh ::
  "nat \<Rightarrow> vec3 list list \<Rightarrow> vec3 list list \<Rightarrow> vec3 list list \<Rightarrow> vec3 list \<times> int list list"
where
  "assemble_mesh hair_co_len hair_coords nearest_normals perpendicular =
    (let (new_verts, new_verts_parallel) =
           compute_new_ver_coordinaes hair_co_len hair_coords nearest_normals perpendicular;
         (faces, faces_parallel) = compute_new_face_vert_idxs hair_co_len hair_coords;
         all_verts = new_verts @ new_verts_parallel;
         all_faces = faces @ map (map (map (\<lambda>x. x + int (length new_verts)))) faces_parallel;
         all_faces = concat all_faces
     in (all_verts, all_faces))"

text \<open>The shape \<open>(n, k, 3)\<close> of a numpy array of coordinates.\<close>

definition has_shape :: "nat \<Rightarrow> nat \<Rightarrow> 'a list list \<Rightarrow> bool" where
  "has_shape n k arr \<longleftrightarrow> length arr = n \<and> (\<forall>row \<in> set arr. length row = k)"


subsection \<open>Hair strand extractor (\<open>_walk_island\<close>, \<open>_get_individual_hairs\<close>, lines 57--91)\<close>

text \<open>
  \<open>e.other_vert(v)\<close> is the other vertex of the edge, and \<open>None\<close> when \<open>v\<close> is not a
  vertex of \<open>e\<close>.
\<close>

definition other_vert :: "bmedge \<Rightarrow> nat \<Rightarrow> nat option" where
  "other_vert e v =
     (if fst (verts e) = v then Some (snd (verts e))
      else if snd (verts e) = v then Some (fst (verts e))
      else None)"

text \<open>
  The tags of the vertices are the set of the indices of the tagged vertices. Lines
  62--64: \<open>[e.other_vert(vert) for e in vert.link_edges if not e.other_vert(vert).tag]\<close>;
  reading \<open>.tag\<close> of \<open>None\<close> raises AttributeError.
\<close>

fun linked_untagged :: "bmedge list \<Rightarrow> nat \<Rightarrow> nat set \<Rightarrow> error + nat list" where
  "linked_untagged [] vert tags = Inr []"
| "linked_untagged (e # es) vert tags =
     (case other_vert e vert of
        None \<Rightarrow> Inl AttributeError
      | Some u \<Rightarrow>
         (case linked_untagged es vert tags of
            Inl err \<Rightarrow> Inl err
          | Inr us \<Rightarrow> Inr (if u \<notin> tags then u # us else us)))"

text \<open>
  \<open>_walk_island\<close>, with the indices it yields collected in order, as \<open>np.fromiter\<close>
  does, and the tags returned. A generator nested deeper than the interpreter's
  recursion limit raises RecursionError: \<open>depth\<close> is the number of nested calls that
  are left. A vertex is referred to by its index; an index outside \<open>bm.verts\<close>, which
  the host excludes, fails with IndexError. \<open>walk_linked\<close> is the loop over
  \<open>linked_verts\<close> (lines 66--69).
\<close>

fun walk_island :: "nat \<Rightarrow> bmesh \<Rightarrow> nat \<Rightarrow> nat set \<Rightarrow> error + (nat list \<times> nat set)"
  and walk_linked :: "nat \<Rightarrow> bmesh \<Rightarrow> nat list \<Rightarrow> nat set \<Rightarrow> error + (nat list \<times> nat set)"
where
  "walk_island 0 bm vert tags = Inl RecursionError"
| "walk_island (Suc depth) bm vert tags =
     (if vert < length (bm_verts bm)
      then (let tags1 = insert vert tags
            in case linked_untagged (link_edges (bm_verts bm ! vert)) vert tags1 of
                 Inl e \<Rightarrow> Inl e
               | Inr linked_verts \<Rightarrow>
                  (case walk_linked depth bm linked_verts tags1 of
                     Inl e \<Rightarrow> Inl e
                   | Inr (idxs, tags2) \<Rightarrow> Inr (vert # idxs, tags2)))
      else Inl IndexError)"
| "walk_linked depth bm [] tags = Inr ([], tags)"
| "walk_linked depth bm (v # rest) tags =
     (if v \<in> tags then walk_linked depth bm rest tags
      else (case walk_island depth bm v tags of
              Inl e \<Rightarrow> Inl e
            | Inr (idxs, tags1) \<Rightarrow>
               (case walk_linked depth bm rest tags1 of
                  Inl e \<Rightarrow> Inl e
                | Inr (idxs2, tags2) \<Rightarrow> Inr (idxs @ idxs2, tags2))))"

text \<open>
  Lines 87--89: \<open>np.linalg.norm(self.hair_coords[island_idxs[0]] -
  self.hair_coords[island_idxs[-2]])\<close>. Index \<open>-2\<close> of an array of fewer than two
  elements raises IndexError, as does a coordinate index out of range.
\<close>

definition strand_length :: "vec3 list \<Rightarrow> nat list \<Rightarrow> error + real" where
  "strand_length hair_coords island_idxs =
     (if length island_idxs < 2 then Inl IndexError
      else (let a = island_idxs ! 0; b = island_idxs ! (length island_idxs - 2)
            in if a < length hair_coords \<and> b < length hair_coords
               then Inr (vnorm (vsub (hair_coords ! a) (hair_coords ! b)))
               else Inl IndexError))"

text \<open>Lines 75--78: the vertices with exactly one link edge, in index order.\<close>

definition start_verts :: "bmesh \<Rightarrow> nat list" where
  "start_verts bm =
     filter (\<lambda>v. length (link_edges (bm_verts bm ! v)) = 1) [0..<length (bm_verts bm)]"

text \<open>
  Lines 81--91: the loop over \<open>start_verts\<close>. The generator is consumed by \<open>list(...)\<close>
  in \<open>__init__\<close>, so the result is the list of the pairs it yields, or the exception
  that ends it. \<open>found_verts\<close> gets the last index of each island.
\<close>

fun hairs_loop ::
  "nat \<Rightarrow> bmesh \<Rightarrow> vec3 list \<Rightarrow> nat list \<Rightarrow> nat set \<Rightarrow> nat set
     \<Rightarrow> error + (nat list \<times> real) list"
where
  "hairs_loop depth bm hair_coords [] found_verts tags = Inr []"
| "hairs_loop depth bm hair_coords (start_vert # rest) found_verts tags =
     (if start_vert \<in> found_verts then hairs_loop depth bm hair_coords rest found_verts tags
      else (case walk_island depth bm start_vert tags of
              Inl e \<Rightarrow> Inl e
            | Inr (island_idxs, tags1) \<Rightarrow>
               (case strand_length hair_coords island_idxs of
                  Inl e \<Rightarrow> Inl e
                | Inr len \<Rightarrow>
                   (case hairs_loop depth bm hair_coords rest
                           (insert (last island_idxs) found_verts) tags1 of
                      Inl e \<Rightarrow> Inl e
                    | Inr hairs \<Rightarrow> Inr ((island_idxs, len) # hairs)))))"

definition get_individual_hairs ::
  "nat \<Rightarrow> bmesh \<Rightarrow> vec3 list \<Rightarrow> error + (nat list \<times> real) list"
where
  "get_individual_hairs depth bm hair_coords =
     hairs_loop depth bm hair_coords (start_verts bm) {} {}"

text \<open>
  Hair meshes whose connected components are simple open edge paths: the vertices are
  those of the vertex-disjoint paths \<open>paths\<close>, each of at least two vertices, and the
  link edges of a vertex lead, without repetition and in any order, to its neighbours
  on its path (one neighbour for the two end vertices, two for the others).
\<close>

definition path_nbrs :: "nat list \<Rightarrow> nat \<Rightarrow> nat set" where
  "path_nbrs p i = (if 0 < i then {p ! (i - 1)} else {}) \<union> (if Suc i < length p then {p ! Suc i} else {})"

definition path_links :: "bmesh \<Rightarrow> nat list \<Rightarrow> bool" where
  "path_links bm p \<longleftrightarrow>
     (\<forall>i < length p.
        let others = map (\<lambda>e. other_vert e (p ! i)) (link_edges (bm_verts bm ! (p ! i)))
        in distinct others \<and> set others = Some ` path_nbrs p i)"

definition path_mesh :: "bmesh \<Rightarrow> nat list list \<Rightarrow> bool" where
  "path_mesh bm paths \<longleftrightarrow>
     distinct (concat paths)
     \<and> set (concat paths) = set [0..<length (bm_verts bm)]
     \<and> (\<forall>p \<in> set paths. 2 \<le> length p \<and> path_links bm p)"


subsection \<open>UV zone mapper (\<open>_set_vert_group_uvs\<close>, lines 297--351)\<close>

text \<open>
  A UV coordinate is a pair, a UV rectangle the pair \<open>(bottom_left, top_right)\<close>. A
  dictionary loaded from JSON is an association list in insertion order: \<open>d[k]\<close> raises
  KeyError for a missing key, \<open>d.values()\<close> lists the values in order.
\<close>

type_synonym uv = "real \<times> real"

type_synonym uv_zone = "uv \<times> uv"

type_synonym 'v pydict = "(string \<times> 'v) list"

type_synonym zone_dict = "uv_zone list pydict pydict pydict"

definition dict_get :: "'v pydict \<Rightarrow> string \<Rightarrow> error + 'v" where
  "dict_get d k = (case map_of d k of None \<Rightarrow> Inl KeyError | Some v \<Rightarrow> Inr v)"

definition dict_values :: "'v pydict \<Rightarrow> 'v list" where
  "dict_values d = map snd d"

text \<open>
  The random source is the sequence of its raw outcomes; the state is the position in
  the sequence. \<open>random.choice(seq)\<close> raises IndexError for an empty sequence and returns
  \<open>seq[randbelow(len(seq))]\<close> otherwise.
\<close>

type_synonym random_source = "nat \<Rightarrow> nat"

definition random_choice :: "random_source \<Rightarrow> nat \<Rightarrow> 'a list \<Rightarrow> error + ('a \<times> nat)" where
  "random_choice src pos seq =
     (if seq = [] then Inl IndexError else Inr (seq ! (src pos mod length seq), Suc pos))"

text \<open>Lines 320--331: the choice of the zone from the measured length and width.\<close>

definition choose_zone ::
  "zone_dict \<Rightarrow> real \<Rightarrow> real \<Rightarrow> random_source \<Rightarrow> nat \<Rightarrow> error + (uv_zone \<times> nat)"
where
  "choose_zone hairzone_uv_dict len width src pos =
     (if len > 0.05
      then (case dict_get hairzone_uv_dict ''long'' of
              Inl e \<Rightarrow> Inl e
            | Inr table \<Rightarrow>
               (case random_choice src pos (dict_values table) of
                  Inl e \<Rightarrow> Inl e
                | Inr (subdict, pos1) \<Rightarrow>
                    if width > 0.02
                    then (case dict_get subdict ''wide'' of
                            Inl e \<Rightarrow> Inl e
                          | Inr zones \<Rightarrow> random_choice src pos1 zones)
                    else (case dict_get subdict ''narrow'' of
                            Inl e \<Rightarrow> Inl e
                          | Inr zones \<Rightarrow> random_choice src pos1 zones)))
      else (case dict_get hairzone_uv_dict ''short'' of
              Inl e \<Rightarrow> Inl e
            | Inr table \<Rightarrow>
               (case random_choice src pos (dict_values table) of
                  Inl e \<Rightarrow> Inl e
                | Inr (subdict, pos1) \<Rightarrow>
                    if width > 0.01
                    then (case dict_get subdict ''wide'' of
                            Inl e \<Rightarrow> Inl e
                          | Inr zones \<Rightarrow> random_choice src pos1 zones)
                    else (case dict_get subdict ''narrow'' of
                            Inl e \<Rightarrow> Inl e
                          | Inr zones \<Rightarrow> random_choice src pos1 zones))))"

text \<open>
  A mesh vertex is the pair of its index and its coordinate. Line 307:
  \<open>hair_verts = verts[i : i + vert_count]\<close>; lines 318--319: the measured length is the
  distance of \<open>hair_verts[0]\<close> and \<open>hair_verts[vert_len]\<close>, the measured width the
  distance of \<open>hair_verts[0]\<close> and \<open>hair_verts[-1]\<close>.
\<close>

type_synonym meshvert = "nat \<times> vec3"

definition hair_verts_of :: "meshvert list \<Rightarrow> nat \<Rightarrow> nat \<Rightarrow> meshvert list" where
  "hair_verts_of vertices i vert_count = take vert_count (drop i vertices)"

definition card_length :: "meshvert list \<Rightarrow> nat \<Rightarrow> real" where
  "card_length hair_verts vert_len = vnorm (vsub (snd (hair_verts ! 0)) (snd (hair_verts ! vert_len)))"

definition card_width :: "meshvert list \<Rightarrow> real" where
  "card_width hair_verts =
     vnorm (vsub (snd (hair_verts ! 0)) (snd (hair_verts ! (length hair_verts - 1))))"

text \<open>
  Lines 335--351: the loop over \<open>enumerate(vert_pairs)\<close>. \<open>vert_loop_dict\<close> maps a vertex
  index to the indices of its UV loops (KeyError for a vertex without loops); the UV
  layer maps a loop index to its UV coordinate. \<open>i / (vert_len - 1)\<close> raises
  ZeroDivisionError for \<open>vert_len = 1\<close>. The left loops are written first.
\<close>

fun assign_uvs ::
  "nat \<Rightarrow> uv_zone \<Rightarrow> (nat \<rightharpoonup> nat list) \<Rightarrow> (nat \<times> nat \<times> nat) list \<Rightarrow> (nat \<Rightarrow> uv)
     \<Rightarrow> error + (nat \<Rightarrow> uv)"
where
  "assign_uvs vert_len chosen_zone vert_loop_dict [] uv_layer = Inr uv_layer"
| "assign_uvs vert_len chosen_zone vert_loop_dict ((i, vert_left, vert_right) # rest) uv_layer =
     (let (bottom_left, top_right) = chosen_zone
      in case vert_loop_dict vert_left of
           None \<Rightarrow> Inl KeyError
         | Some left_loops \<Rightarrow>
            (case vert_loop_dict vert_right of
               None \<Rightarrow> Inl KeyError
             | Some right_loops \<Rightarrow>
                (let x_min = fst bottom_left;
                     x_max = fst top_right;
                     y_min = snd bottom_left;
                     y_max = snd top_right;
                     y_diff = y_max - y_min
                 in if vert_len - 1 = 0 then Inl ZeroDivisionError
                    else (let y_relative = real i / real (vert_len - 1);
                              uv1 = fold (\<lambda>loop uvl. uvl(loop := (x_max, y_min + y_diff * y_relative)))
                                      left_loops uv_layer;
                              uv2 = fold (\<lambda>loop uvl. uvl(loop := (x_min, y_min + y_diff * y_relative)))
                                      right_loops uv1
                          in assign_uvs vert_len chosen_zone vert_loop_dict rest uv2))))"

text \<open>
  The body of the outer loop for the card starting at vertex \<open>i\<close> (lines 306--351). The
  list built in lines 309--311 is overwritten in line 313 and left out. Reading
  \<open>hair_verts[vert_len]\<close> out of range raises IndexError. The result carries the
  chosen zone, the new position of the random source and the new UV layer.
\<close>

definition hair_card ::
  "zone_dict \<Rightarrow> nat \<Rightarrow> meshvert list \<Rightarrow> (nat \<rightharpoonup> nat list) \<Rightarrow> random_source \<Rightarrow> nat
     \<Rightarrow> nat \<Rightarrow> (nat \<Rightarrow> uv) \<Rightarrow> error + (uv_zone \<times> nat \<times> (nat \<Rightarrow> uv))"
where
  "hair_card hairzone_uv_dict vert_len vertices vert_loop_dict src i pos uv_layer =
     (let vert_count = vert_len * 2;
          hair_verts = hair_verts_of vertices i vert_count;
          vert_pairs = zip (map fst (take vert_len hair_verts))
                           (rev (map fst (drop vert_len hair_verts)))
      in if vert_len < length hair_verts
         then (let len = card_length hair_verts vert_len;
                   width = card_width hair_verts
               in case choose_zone hairzone_uv_dict len width src pos of
                    Inl e \<Rightarrow> Inl e
                  | Inr (chosen_zone, pos1) \<Rightarrow>
                     (case assign_uvs vert_len chosen_zone vert_loop_dict
                             (enumerate 0 vert_pairs) uv_layer of
                        Inl e \<Rightarrow> Inl e
                      | Inr uv_layer1 \<Rightarrow> Inr (chosen_zone, pos1, uv_layer1)))
         else Inl IndexError)"

fun cards_loop ::
  "zone_dict \<Rightarrow> nat \<Rightarrow> meshvert list \<Rightarrow> (nat \<rightharpoonup> nat list) \<Rightarrow> random_source \<Rightarrow> nat list
     \<Rightarrow> nat \<Rightarrow> (nat \<Rightarrow> uv) \<Rightarrow> error + (uv_zone list \<times> nat \<times> (nat \<Rightarrow> uv))"
where
  "cards_loop d vert_len vertices vert_loop_dict src [] pos uv_layer = Inr ([], pos, uv_layer)"
| "cards_loop d vert_len vertices vert_loop_dict src (i # rest) pos uv_layer =
     (case hair_card d vert_len vertices vert_loop_dict src i pos uv_layer of
        Inl e \<Rightarrow> Inl e
      | Inr (chosen_zone, pos1, uv_layer1) \<Rightarrow>
         (case cards_loop d vert_len vertices vert_loop_dict src rest pos1 uv_layer1 of
            Inl e \<Rightarrow> Inl e
          | Inr (zones, pos2, uv_layer2) \<Rightarrow> Inr (chosen_zone # zones, pos2, uv_layer2)))"

text \<open>
  \<open>range(0, n, step)\<close> for a positive step. \<open>_set_vert_group_uvs\<close> runs the loop over
  \<open>range(0, len(verts), vert_len * 2)\<close>, which raises ValueError for a zero step. The
  vertices \<open>verts\<close> are \<open>obj.data.vertices\<close>: the coordinates with their positions as indices.
  Besides the UV layer, the model returns the zones chosen for the cards, in order.
\<close>

definition py_range :: "nat \<Rightarrow> nat \<Rightarrow> nat list" where
  "py_range n step = map (\<lambda>j. j * step) [0..<(n + step - 1) div step]"

definition set_vert_group_uvs ::
  "zone_dict \<Rightarrow> nat \<Rightarrow> vec3 list \<Rightarrow> (nat \<rightharpoonup> nat list) \<Rightarrow> random_source \<Rightarrow> nat
     \<Rightarrow> (nat \<Rightarrow> uv) \<Rightarrow> error + (uv_zone list \<times> nat \<times> (nat \<Rightarrow> uv))"
where
  "set_vert_group_uvs hairzone_uv_dict vert_len coords vert_loop_dict src pos uv_layer =
     (if vert_len * 2 = 0 then Inl ValueError
      else cards_loop hairzone_uv_dict vert_len (enumerate 0 coords) vert_loop_dict src
             (py_range (length coords) (vert_len * 2)) pos uv_layer)"


subsection \<open>Haircap density and vertex colours (\<open>add_haircap\<close>, lines 382--429)\<close>

text \<open>
  A vertex group assigns a weight to the vertices it contains; \<open>vg.weight(i)\<close> raises
  RuntimeError for a vertex that is not in the group.
\<close>

type_synonym vertex_group = "nat \<rightharpoonup> real"

definition vg_weight :: "vertex_group \<Rightarrow> nat \<Rightarrow> error + real" where
  "vg_weight vg i = (case vg i of None \<Rightarrow> Inl RuntimeError | Some w \<Rightarrow> Inr w)"

text \<open>
  The inner loop (lines 388--390): \<open>with contextlib.suppress(RuntimeError)\<close> drops a
  RuntimeError of the assignment and leaves \<open>vg_values[i]\<close> at 0; any other exception
  would leave the loop.
\<close>

fun fill_vg_values :: "vertex_group \<Rightarrow> nat list \<Rightarrow> real list \<Rightarrow> error + real list" where
  "fill_vg_values vg [] vg_values = Inr vg_values"
| "fill_vg_values vg (i # rest) vg_values =
     (case vg_weight vg i of
        Inr w \<Rightarrow> fill_vg_values vg rest (vg_values[i := w])
      | Inl e \<Rightarrow> if e = RuntimeError then fill_vg_values vg rest vg_values else Inl e)"

text \<open>The outer loop (lines 386--391): \<open>vg_aggregate += vg_values\<close> adds elementwise.\<close>

fun sum_vertex_groups :: "nat \<Rightarrow> vertex_group list \<Rightarrow> real list \<Rightarrow> error + real list" where
  "sum_vertex_groups vert_count [] vg_aggregate = Inr vg_aggregate"
| "sum_vertex_groups vert_count (vg # rest) vg_aggregate =
     (case fill_vg_values vg [0..<vert_count] (replicate vert_count 0) of
        Inl e \<Rightarrow> Inl e
      | Inr vg_values \<Rightarrow> sum_vertex_groups vert_count rest (map2 (+) vg_aggregate vg_values))"

text \<open>
  \<open>np.round(x, 4)\<close> is \<open>rint(x * 10 ** 4) / 10 ** 4\<close>, where \<open>rint\<close> rounds to the nearest
  integer and a tie to the even one. \<open>np.clip(x, 0, 1)\<close> is \<open>minimum(maximum(x, 0), 1)\<close>.
\<close>

definition rint :: "real \<Rightarrow> int" where
  "rint x = (let f = \<lfloor>x\<rfloor>; d = x - of_int f
             in if d < 1 / 2 then f else if 1 / 2 < d then f + 1
                else if even f then f else f + 1)"

definition np_round :: "real \<Rightarrow> nat \<Rightarrow> real" where
  "np_round x decimals = of_int (rint (x * 10 ^ decimals)) / 10 ^ decimals"

definition np_clip :: "real \<Rightarrow> real \<Rightarrow> real \<Rightarrow> real" where
  "np_clip x lo hi = min (max x lo) hi"

text \<open>Lines 382--394: the aggregate density of every body vertex.\<close>

definition aggregate_density :: "nat \<Rightarrow> vertex_group list \<Rightarrow> error + real list" where
  "aggregate_density vert_count density_vertex_groups =
     (case sum_vertex_groups vert_count density_vertex_groups (replicate vert_count 0) of
        Inl e \<Rightarrow> Inl e
      | Inr vg_aggregate \<Rightarrow>
          Inr (map (\<lambda>x. np_clip x 0 1) (map (\<lambda>x. np_round x 4) vg_aggregate)))"

text \<open>
  Lines 418--421: the colour of haircap vertex \<open>i\<close> is written to \<open>vc.data[i]\<close>. The
  KD tree of the body is built by a helper outside this module; \<open>kd_find\<close> stands for
  \<open>lambda co: self.kd.find(co)[1]\<close>, the index of the nearest body vertex. Reading
  \<open>vg_aggregate\<close> or writing \<open>vc.data\<close> out of range raises IndexError.
\<close>

type_synonym color = "real \<times> real \<times> real \<times> real"

fun paint_density ::
  "(vec3 \<Rightarrow> nat) \<Rightarrow> real list \<Rightarrow> (nat \<times> vec3) list \<Rightarrow> color list \<Rightarrow> error + color list"
where
  "paint_density kd_find vg_aggregate [] vc_data = Inr vc_data"
| "paint_density kd_find vg_aggregate ((i, vert_world_co) # rest) vc_data =
     (let nearest_vert_index = kd_find vert_world_co
      in if nearest_vert_index < length vg_aggregate
         then (let v = vg_aggregate ! nearest_vert_index
               in if i < length vc_data
                  then paint_density kd_find vg_aggregate rest (vc_data[i := (v, v, v, 1)])
                  else Inl IndexError)
         else Inl IndexError)"

text \<open>Lines 425--429: both vertices of every boundary edge are painted \<open>(0, 0, 0, 1)\<close>.\<close>

fun zero_boundary :: "bmedge list \<Rightarrow> color list \<Rightarrow> error + color list" where
  "zero_boundary [] vc_data = Inr vc_data"
| "zero_boundary (edge # rest) vc_data =
     (if is_boundary edge
      then (let (v1, v2) = verts edge
            in if v1 < length vc_data
               then (let vc_data1 = vc_data[v1 := (0, 0, 0, 1)]
                     in if v2 < length vc_data1
                        then zero_boundary rest (vc_data1[v2 := (0, 0, 0, 1)])
                        else Inl IndexError)
               else Inl IndexError)
      else zero_boundary rest vc_data)"

text \<open>
  The colour part of \<open>add_haircap\<close>: the aggregate density, the painting loop over
  \<open>enumerate(haircap_world_coords)\<close> and the boundary loop over the edges of the haircap
  mesh. The deformation of the haircap (lines 407--415) moves vertices and does not
  touch the colours; it is not part of the model.
\<close>

definition add_haircap ::
  "nat \<Rightarrow> vertex_group list \<Rightarrow> (vec3 \<Rightarrow> nat) \<Rightarrow> vec3 list \<Rightarrow> color list \<Rightarrow> bmesh
     \<Rightarrow> error + color list"
where
  "add_haircap vert_count density_vertex_groups kd_find haircap_world_coords vc_data bm =
     (case aggregate_density vert_count density_vertex_groups of
        Inl e \<Rightarrow> Inl e
      | Inr vg_aggregate \<Rightarrow>
          (case paint_density kd_find vg_aggregate (enumerate 0 haircap_world_coords) vc_data of
             Inl e \<Rightarrow> Inl e
           | Inr painted \<Rightarrow> zero_boundary (bm_edges bm) painted))"


section \<open>Properties\<close>

subsection \<open>Classification\<close>

lemma upt_Suc_shift: "[0..<Suc m] = 0 # map Suc [0..<m]"
  by (simp add: upt_conv_Cons map_Suc_upt del: upt_Suc)

lemma div_add_stride: "0 < N \<Longrightarrow> (k + N) div N = Suc (k div (N::nat))"
  by simp

lemma ceil_div_step:
  assumes "0 < N" "0 < (L::nat)"
  shows "(L + N - 1) div N = Suc ((L - N + N - 1) div N)"
proof (cases "N \<le> L")
  case True
  have "L + N - 1 = (L - 1) + N" using assms by arith
  then have "(L + N - 1) div N = ((L - 1) + N) div N" by (rule arg_cong)
  also have "\<dots> = Suc ((L - 1) div N)" using assms(1) by (rule div_add_stride)
  also have "L - 1 = L - N + N - 1" using True by arith
  finally show ?thesis .
next
  case False
  have "L + N - 1 = (L - 1) + N" using assms by arith
  then have "(L + N - 1) div N = ((L - 1) + N) div N" by (rule arg_cong)
  also have "\<dots> = Suc ((L - 1) div N)" using assms(1) by (rule div_add_stride)
  also have "(L - 1) div N = 0" using assms False by simp
  also have "0 = (L - N + N - 1) div N" using assms False by simp
  finally show ?thesis .
qed

lemma slice_step_nth:
  "0 < N \<Longrightarrow> slice_step N xs = map (\<lambda>j. xs ! (j * N)) [0..<(length xs + N - 1) div N]"
proof (induction N xs rule: slice_step.induct)
  case (1 N xs)
  show ?case
  proof (cases "xs = []")
    case True
    with 1(2) show ?thesis by (simp add: slice_step.simps)
  next
    case False
    let ?m = "(length (drop N xs) + N - 1) div N"
    have L: "0 < length xs" using False by simp
    have IH: "slice_step N (drop N xs) = map (\<lambda>j. drop N xs ! (j * N)) [0..<?m]"
      using 1 False by simp
    have step: "slice_step N xs = hd xs # slice_step N (drop N xs)"
      using 1(2) False by (subst slice_step.simps) simp
    have m: "(length xs + N - 1) div N = Suc ?m"
      using ceil_div_step [OF 1(2) L] by simp
    have c: "drop N xs ! (j * N) = xs ! (Suc j * N)" if "j < ?m" for j
    proof -
      have "?m \<noteq> 0" using that by simp
      then have "N \<le> length xs" by (cases "N \<le> length xs") (use 1(2) in auto)
      then show ?thesis by (simp add: add.commute)
    qed
    have "map (\<lambda>j. xs ! (j * N)) [0..<Suc ?m] =
          xs ! 0 # map (\<lambda>j. xs ! (Suc j * N)) [0..<?m]"
      by (simp only: upt_Suc_shift list.map map_map comp_def mult_zero_left)
    also have "\<dots> = hd xs # map (\<lambda>j. drop N xs ! (j * N)) [0..<?m]"
      using False c by (simp add: hd_conv_nth)
    finally show ?thesis using step IH m by simp
  qed
qed

text \<open>
  C4: the three buckets are decided by the length alone. A strand of length \<open>l\<close> is put
  in \<open>short_hairs\<close> exactly when \<open>l \<le> 0.05\<close>, in \<open>medium_hairs\<close> exactly when
  \<open>0.05 < l \<le> 0.1\<close>, in \<open>long_hairs\<close> exactly when \<open>l > 0.1\<close>; it is in exactly one of
  the three; the buckets of a list are assembled strand by strand; and the boundary
  lengths 0.05 and 0.1 are short and medium.
\<close>

theorem C4_length_classification:
  "short_hairs [(h, l)] = (if l \<le> 0.05 then [h] else [])
   \<and> medium_hairs [(h, l)] = (if 0.05 < l \<and> l \<le> 0.1 then [h] else [])
   \<and> long_hairs [(h, l)] = (if l > 0.1 then [h] else [])
   \<and> length (short_hairs [(h, l)]) + length (medium_hairs [(h, l)])
       + length (long_hairs [(h, l)]) = 1
   \<and> short_hairs (xs @ ys) = short_hairs xs @ short_hairs ys
   \<and> medium_hairs (xs @ ys) = medium_hairs xs @ medium_hairs ys
   \<and> long_hairs (xs @ ys) = long_hairs xs @ long_hairs ys
   \<and> length (short_hairs hairs) + length (medium_hairs hairs) + length (long_hairs hairs)
       = length hairs
   \<and> short_hairs [(h, 0.05)] = [h] \<and> medium_hairs [(h, 0.05)] = []
   \<and> long_hairs [(h, 0.05)] = []
   \<and> short_hairs [(h, 0.1)] = [] \<and> medium_hairs [(h, 0.1)] = [h]
   \<and> long_hairs [(h, 0.1)] = []"
proof -
  have total: "length (short_hairs hairs) + length (medium_hairs hairs)
      + length (long_hairs hairs) = length hairs"
    by (induction hairs) (auto simp: short_hairs_def medium_hairs_def long_hairs_def)
  show ?thesis
    using total by (simp add: short_hairs_def medium_hairs_def long_hairs_def)
qed

theorem C4_length_classification_witness:
  "short_hairs [(''a'', 0.02), (''b'', 0.07), (''c'', 0.15), (''d'', 0.05)] = [''a'', ''d'']
   \<and> medium_hairs [(''a'', 0.02), (''b'', 0.07), (''c'', 0.15), (''d'', 0.05)] = [''b'']
   \<and> long_hairs [(''a'', 0.02), (''b'', 0.07), (''c'', 0.15), (''d'', 0.05)] = [''c'']"
  using C4_length_classification [of "''a''" "0.02" "[(''a'', 0.02), (''b'', 0.07)]"
      "[(''c'', 0.15), (''d'', 0.05)]" "[]"]
  by (simp add: short_hairs_def medium_hairs_def long_hairs_def)

subsection \<open>Quality tiers and downsampling\<close>

text \<open>
  C5 as stated: under tier \<open>high\<close> the strides of the short, medium and long buckets
  are 6, 6 and 3. The code indexes the tuple \<open>(3, 6, 6, 0.003, 1)\<close> with the position of
  the bucket in \<open>(short_hairs, medium_hairs, long_hairs)\<close>, so the strides are 3, 6, 6.
\<close>

theorem C5_high_strides_counterexample:
  "(chosen_stride (quality_dict High) 0, chosen_stride (quality_dict High) 1,
    chosen_stride (quality_dict High) 2) \<noteq> (6, 6, 3)"
  by simp

text \<open>
  C5 amended: under tier \<open>high\<close> the strides of the short, medium and long buckets are
  3, 6 and 6, and strands of lengths 0.02, 0.07 and 0.15 are put in the short, medium
  and long bucket respectively; all three are kept.
\<close>

theorem C5_high_strides:
  "(chosen_stride (quality_dict High) 0, chosen_stride (quality_dict High) 1,
    chosen_stride (quality_dict High) 2) = (3, 6, 6)
   \<and> short_hairs [(a, 0.02), (b, 0.07), (c, 0.15)] = [a]
   \<and> medium_hairs [(a, 0.02), (b, 0.07), (c, 0.15)] = [b]
   \<and> long_hairs [(a, 0.02), (b, 0.07), (c, 0.15)] = [c]
   \<and> all_hairs High [(a, 0.02), (b, 0.07), (c, 0.15)] = [a, b, c]"
  by (simp add: short_hairs_def medium_hairs_def long_hairs_def all_hairs_def
      extend_bucket_def enumerate_eq_zip)

lemma chosen_stride_pos: "0 < chosen_stride (quality_dict q) i"
  by (cases q) simp_all

text \<open>
  C6: the strands kept are those of the short, the medium and the long bucket, in this
  order; a bucket of more than 30 strands keeps exactly the strands at its indices
  0, N, 2N, ... (N the tier's stride of the bucket, which is never 0), a bucket of 30
  strands or fewer keeps them all. No random source is involved.
\<close>

theorem C6_bucket_downsampling:
  "all_hairs q hairs =
     extend_bucket (quality_dict q) 0 (short_hairs hairs)
     @ extend_bucket (quality_dict q) 1 (medium_hairs hairs)
     @ extend_bucket (quality_dict q) 2 (long_hairs hairs)
   \<and> 0 < chosen_stride (quality_dict q) i
   \<and> extend_bucket (quality_dict q) i hair_list =
      (if 30 < length hair_list
       then map (\<lambda>j. hair_list ! (j * chosen_stride (quality_dict q) i))
              [0..<(length hair_list + chosen_stride (quality_dict q) i - 1)
                    div chosen_stride (quality_dict q) i]
       else hair_list)"
proof -
  have "all_hairs q hairs =
     extend_bucket (quality_dict q) 0 (short_hairs hairs)
     @ extend_bucket (quality_dict q) 1 (medium_hairs hairs)
     @ extend_bucket (quality_dict q) 2 (long_hairs hairs)"
    by (simp add: all_hairs_def enumerate_eq_zip upt_rec [of 0] upt_rec [of 1] upt_rec [of 2]
        numeral_2_eq_2)
  moreover have "extend_bucket (quality_dict q) i hair_list =
      (if 30 < length hair_list
       then map (\<lambda>j. hair_list ! (j * chosen_stride (quality_dict q) i))
              [0..<(length hair_list + chosen_stride (quality_dict q) i - 1)
                    div chosen_stride (quality_dict q) i]
       else hair_list)"
    by (simp add: extend_bucket_def slice_step_nth [OF chosen_stride_pos])
  ultimately show ?thesis using chosen_stride_pos by blast
qed


subsection \<open>Quad-strip mesh builder\<close>

lemma length_concat_shape: "has_shape n k arr \<Longrightarrow> length (concat arr) = n * k"
  unfolding has_shape_def
  by (induction arr arbitrary: n) (auto simp: length_concat)

lemma length_segment_correction:
  "0 < k \<Longrightarrow> length (calculate_segment_correction k) = k"
  by (simp add: calculate_segment_correction_def arange_def)

lemma has_shape_map2:
  assumes "has_shape n k a" "has_shape n k' b"
    and "\<And>r s. length r = k \<Longrightarrow> length s = k' \<Longrightarrow> length (f r s) = m"
  shows "has_shape n m (map2 f a b)"
  using assms unfolding has_shape_def
  by (auto elim!: in_set_zipE)

lemma has_shape_map:
  assumes "has_shape n k a" "\<And>r. length r = k \<Longrightarrow> length (f r) = m"
  shows "has_shape n m (map f a)"
  using assms unfolding has_shape_def by auto

lemma length_new_verts:
  assumes k: "0 < k" and hc: "has_shape n k hair_coords"
    and nn: "has_shape n k nearest_normals" and pp: "has_shape n k perpendicular"
  shows "length (fst (compute_new_ver_coordinaes k hair_coords nearest_normals perpendicular))
           = 2 * n * k"
    and "length (snd (compute_new_ver_coordinaes k hair_coords nearest_normals perpendicular))
           = 2 * n * k"
proof -
  let ?sc = "calculate_segment_correction k"
  have sc: "length ?sc = k" using k by (rule length_segment_correction)
  have n: "length hair_coords = n" using hc by (simp add: has_shape_def)
  define hl where "hl = map (\<lambda>row. vnorm (vsub (row ! 0) (row ! (length row - 1)))) hair_coords"
  define lc where "lc = map2 (\<lambda>c l. if l < 0.005 then 0.6 else c)
      (map2 (\<lambda>c l. if l < 0.01 then 0.8 else c) (map (\<lambda>_. 1::real) hair_coords) hl) hl"
  have lc: "has_shape n 1 (map (\<lambda>c. [c]) lc)"
    by (simp add: has_shape_def lc_def hl_def n)
  have lcn: "length lc = n" by (simp add: lc_def hl_def n)
  define po where "po = map2 (\<lambda>row c. map2 (\<lambda>s p. smul c (smul s p)) ?sc row) perpendicular lc"
  define hno where "hno = map2 (\<lambda>row c. map2 (\<lambda>s n. smul 0.3 (smul c (smul s (vabs n)))) ?sc row)
      nearest_normals lc"
  have po: "has_shape n k po"
    using pp lcn sc unfolding po_def has_shape_def by (auto elim!: in_set_zipE)
  have hno: "has_shape n k hno"
    using nn lcn sc unfolding hno_def has_shape_def by (auto elim!: in_set_zipE)
  have right: "has_shape n k (map2 (map2 vadd) hair_coords po)"
    by (rule has_shape_map2 [OF hc po]) auto
  have left: "has_shape n k (map2 (map2 vsub) (map rev hair_coords) po)"
    by (rule has_shape_map2 [OF has_shape_map [OF hc] po]) auto
  have top: "has_shape n k (map2 (map2 vadd) hair_coords hno)"
    by (rule has_shape_map2 [OF hc hno]) auto
  have bottom: "has_shape n k (map2 (map2 vsub) hair_coords hno)"
    by (rule has_shape_map2 [OF hc hno]) auto
  have nv: "has_shape n (2 * k)
      (map2 (@) (map2 (map2 vsub) (map rev hair_coords) po) (map2 (map2 vadd) hair_coords po))"
    by (rule has_shape_map2 [OF left right]) auto
  have nvp: "has_shape n (2 * k)
      (map2 (@) (map2 (map2 vadd) hair_coords hno) (map2 (map2 vsub) hair_coords hno))"
    by (rule has_shape_map2 [OF top bottom]) auto
  show "length (fst (compute_new_ver_coordinaes k hair_coords nearest_normals perpendicular))
           = 2 * n * k"
    using length_concat_shape [OF nv]
    by (simp add: compute_new_ver_coordinaes_def Let_def po_def lc_def hl_def mult.assoc mult.left_commute)
  show "length (snd (compute_new_ver_coordinaes k hair_coords nearest_normals perpendicular))
           = 2 * n * k"
    using length_concat_shape [OF nvp]
    by (simp add: compute_new_ver_coordinaes_def Let_def hno_def lc_def hl_def mult.assoc mult.left_commute)
qed


lemma faces_copy:
  "snd (compute_new_face_vert_idxs k hc) = fst (compute_new_face_vert_idxs k hc)"
  by (simp add: compute_new_face_vert_idxs_def Let_def)

lemma faces_shape:
  "has_shape (length hc) (k - 1) (fst (compute_new_face_vert_idxs k hc))"
  by (simp add: compute_new_face_vert_idxs_def Let_def has_shape_def)

lemma faces_quads:
  "f \<in> set (concat (fst (compute_new_face_vert_idxs k hc))) \<Longrightarrow> length f = 4"
  by (auto simp: compute_new_face_vert_idxs_def Let_def)

lemma strand_block_bound:
  assumes "i < n" shows "2 * int i * int k + 2 * int k \<le> 2 * int n * int k"
proof -
  have "Suc i * k \<le> n * k" using assms by (intro mult_le_mono1) simp
  then have "int (Suc i * k) \<le> int (n * k)" by (simp only: of_nat_le_iff)
  then show ?thesis by (simp add: algebra_simps)
qed

lemma face_idx_bounds:
  assumes "f \<in> set (concat (fst (compute_new_face_vert_idxs k hc)))" "x \<in> set f"
  shows "0 \<le> x \<and> x < 2 * int (length hc) * int k"
proof -
  from assms(1) obtain i j where i: "i < length hc" and j: "j < k - 1"
    and f: "f = [int i * int k * 2 + int j, int i * int k * 2 + int j + 1,
                 int i * int k * 2 + int k * 2 - int j - 2,
                 int i * int k * 2 + int k * 2 - int j - 1]"
    by (auto simp: compute_new_face_vert_idxs_def Let_def)
  define P where "P = int i * int k"
  define Q where "Q = int (length hc) * int k"
  have "2 * int i * int k + 2 * int k \<le> 2 * int (length hc) * int k"
    using i by (rule strand_block_bound)
  then have b: "2 * P + 2 * int k \<le> 2 * Q" by (simp add: P_def Q_def)
  have c: "0 \<le> P" by (simp add: P_def)
  have jk: "int j + 2 \<le> int k" using j by linarith
  have x: "x = P * 2 + int j \<or> x = P * 2 + int j + 1
      \<or> x = P * 2 + int k * 2 - int j - 2 \<or> x = P * 2 + int k * 2 - int j - 1"
    using assms(2) f by (auto simp: P_def)
  have "0 \<le> x \<and> x < 2 * Q" using x b c jk by linarith
  then show ?thesis by (simp add: Q_def)
qed


lemma assemble_mesh_unfold:
  "assemble_mesh k hc nn pp =
     (fst (compute_new_ver_coordinaes k hc nn pp) @ snd (compute_new_ver_coordinaes k hc nn pp),
      concat (fst (compute_new_face_vert_idxs k hc))
      @ map (map (\<lambda>x. x + int (length (fst (compute_new_ver_coordinaes k hc nn pp)))))
          (concat (fst (compute_new_face_vert_idxs k hc))))"
  by (simp add: assemble_mesh_def Let_def split_beta faces_copy map_concat)

text \<open>
  C1: for a group of \<open>n\<close> strands of \<open>k \<ge> 2\<close> points each, the assembled object has
  \<open>4nk\<close> vertices and \<open>2n(k - 1)\<close> faces, each of four vertex indices; for a single
  strand (\<open>n = 1\<close>) these are \<open>4k\<close> vertices and \<open>2(k - 1)\<close> quads.
\<close>

theorem C1_quad_strip_counts:
  assumes "2 \<le> k" and "has_shape n k hair_coords"
    and "has_shape n k nearest_normals" and "has_shape n k perpendicular"
  shows "length (fst (assemble_mesh k hair_coords nearest_normals perpendicular)) = 4 * n * k
    \<and> length (snd (assemble_mesh k hair_coords nearest_normals perpendicular)) = 2 * n * (k - 1)
    \<and> (\<forall>f \<in> set (snd (assemble_mesh k hair_coords nearest_normals perpendicular)).
          length f = 4)"
proof -
  have k: "0 < k" using assms(1) by simp
  have n: "length hair_coords = n" using assms(2) by (simp add: has_shape_def)
  note lv = length_new_verts [OF k assms(2-4)]
  have lf: "length (concat (fst (compute_new_face_vert_idxs k hair_coords))) = n * (k - 1)"
    using length_concat_shape [OF faces_shape [of hair_coords k]] n by simp
  have "length (fst (assemble_mesh k hair_coords nearest_normals perpendicular)) = 4 * n * k"
    by (simp add: assemble_mesh_unfold lv)
  moreover have "length (snd (assemble_mesh k hair_coords nearest_normals perpendicular))
      = 2 * n * (k - 1)"
    by (simp add: assemble_mesh_unfold lf)
  moreover have "\<forall>f \<in> set (snd (assemble_mesh k hair_coords nearest_normals perpendicular)).
      length f = 4"
  proof -
    define C where "C = concat (fst (compute_new_face_vert_idxs k hair_coords))"
    have q: "\<forall>f \<in> set C. length f = 4" unfolding C_def by (blast intro: faces_quads)
    have "snd (assemble_mesh k hair_coords nearest_normals perpendicular) =
        C @ map (map (\<lambda>x. x + int (2 * n * k))) C"
      by (simp add: assemble_mesh_unfold lv C_def)
    then show ?thesis using q by auto
  qed
  ultimately show ?thesis by blast
qed

theorem C1_quad_strip_counts_witness:
  "length (fst (assemble_mesh 2 [[(0, 0, 0), (0, 0, 1)]] [[(1, 0, 0), (1, 0, 0)]]
      [[(0, 1, 0), (0, 1, 0)]])) = 8
   \<and> length (snd (assemble_mesh 2 [[(0, 0, 0), (0, 0, 1)]] [[(1, 0, 0), (1, 0, 0)]]
      [[(0, 1, 0), (0, 1, 0)]])) = 2"
  using C1_quad_strip_counts [of 2 1 "[[(0, 0, 0), (0, 0, 1)]]" "[[(1, 0, 0), (1, 0, 0)]]"
      "[[(0, 1, 0), (0, 1, 0)]]"]
  by (simp add: has_shape_def)

text \<open>
  C10: for a group of \<open>n\<close> strands of \<open>k \<ge> 2\<close> points each, every index of the
  perpendicular-ribbon faces lies in \<open>[0, 2nk)\<close>, the flat ribbon has \<open>2nk\<close> vertices,
  and every index of the concatenated face array lies in \<open>[0, 4nk)\<close>, hence below the
  length of the assembled vertex array.
\<close>

theorem C10_face_indices_in_bounds:
  assumes "2 \<le> k" and "has_shape n k hair_coords"
    and "has_shape n k nearest_normals" and "has_shape n k perpendicular"
  shows "(\<forall>f \<in> set (concat (fst (compute_new_face_vert_idxs k hair_coords))).
            \<forall>x \<in> set f. 0 \<le> x \<and> x < 2 * int n * int k)
    \<and> length (fst (compute_new_ver_coordinaes k hair_coords nearest_normals perpendicular))
        = 2 * n * k
    \<and> (\<forall>f \<in> set (snd (assemble_mesh k hair_coords nearest_normals perpendicular)).
            \<forall>x \<in> set f. 0 \<le> x \<and> x < 4 * int n * int k
              \<and> nat x < length (fst (assemble_mesh k hair_coords nearest_normals perpendicular)))"
proof -
  have k: "0 < k" using assms(1) by simp
  have n: "length hair_coords = n" using assms(2) by (simp add: has_shape_def)
  note lv = length_new_verts [OF k assms(2-4)]
  have la: "length (fst (assemble_mesh k hair_coords nearest_normals perpendicular)) = 4 * n * k"
    by (simp add: assemble_mesh_unfold lv)
  have fb: "0 \<le> x \<and> x < 2 * int n * int k"
    if "f \<in> set (concat (fst (compute_new_face_vert_idxs k hair_coords)))" "x \<in> set f" for f x
    using face_idx_bounds [OF that] n by simp
  have ab: "0 \<le> x \<and> x < 4 * int n * int k"
    if "f \<in> set (snd (assemble_mesh k hair_coords nearest_normals perpendicular))" "x \<in> set f"
    for f x
  proof -
    from that(1) consider
      "f \<in> set (concat (fst (compute_new_face_vert_idxs k hair_coords)))"
      | g where "g \<in> set (concat (fst (compute_new_face_vert_idxs k hair_coords)))"
          "f = map (\<lambda>x. x + int (2 * n * k)) g"
      by (auto simp: assemble_mesh_unfold lv)
    then show ?thesis
    proof cases
      case 1
      from fb [OF 1 that(2)] show ?thesis by (simp add: ac_simps)
    next
      case 2
      from that(2) 2(2) obtain y where y: "y \<in> set g" "x = y + int (2 * n * k)" by auto
      from fb [OF 2(1) y(1)] y(2) show ?thesis by (simp add: ac_simps)
    qed
  qed
  have "nat x < length (fst (assemble_mesh k hair_coords nearest_normals perpendicular))"
    if "f \<in> set (snd (assemble_mesh k hair_coords nearest_normals perpendicular))" "x \<in> set f"
    for f x
  proof -
    have "0 \<le> x" "x < int (4 * n * k)" using ab [OF that] by simp_all
    then show ?thesis unfolding la by linarith
  qed
  with fb ab lv(1) show ?thesis by blast
qed

theorem C10_face_indices_in_bounds_witness:
  "length (fst (compute_new_ver_coordinaes 2 [[(0, 0, 0), (0, 0, 1)]] [[(1, 0, 0), (1, 0, 0)]]
      [[(0, 1, 0), (0, 1, 0)]])) = 4
   \<and> snd (assemble_mesh 2 [[(0, 0, 0), (0, 0, 1)]] [[(1, 0, 0), (1, 0, 0)]]
      [[(0, 1, 0), (0, 1, 0)]]) = [[0, 1, 2, 3], [4, 5, 6, 7]]"
proof -
  have "length (fst (compute_new_ver_coordinaes 2 [[(0, 0, 0), (0, 0, 1)]]
      [[(1, 0, 0), (1, 0, 0)]] [[(0, 1, 0), (0, 1, 0)]])) = 4"
    using C10_face_indices_in_bounds [of 2 1 "[[(0, 0, 0), (0, 0, 1)]]"
        "[[(1, 0, 0), (1, 0, 0)]]" "[[(0, 1, 0), (0, 1, 0)]]"]
    by (simp add: has_shape_def)
  then show ?thesis
    by (simp add: assemble_mesh_unfold compute_new_face_vert_idxs_def Let_def)
qed

subsection \<open>Hair strand extractor\<close>

lemma linked_untagged_eq:
  "map (\<lambda>e. other_vert e v) es = map Some us \<Longrightarrow>
   linked_untagged es v tags = Inr (filter (\<lambda>u. u \<notin> tags) us)"
proof (induction es arbitrary: us)
  case Nil
  then show ?case by simp
next
  case (Cons e es)
  then obtain u us' where us: "us = u # us'" "other_vert e v = Some u"
    "map (\<lambda>e. other_vert e v) es = map Some us'"
    by (cases us) auto
  with Cons.IH [OF us(3)] show ?case by simp
qed

lemma distinct_set_single: "distinct xs \<Longrightarrow> set xs = {w} \<Longrightarrow> xs = [w]"
proof (induction xs)
  case Nil
  then show ?case by simp
next
  case (Cons a ys)
  then have a: "a = w" by auto
  have "ys = []"
  proof (cases ys)
    case Nil
    then show ?thesis .
  next
    case (Cons b zs)
    with Cons.prems a show ?thesis by auto
  qed
  with a show ?case by simp
qed

lemma path_linked_verts:
  assumes links: "path_links bm p" and i: "i < length p"
  obtains us where
    "map (\<lambda>e. other_vert e (p ! i)) (link_edges (bm_verts bm ! (p ! i))) = map Some us"
    "distinct us" "set us = path_nbrs p i"
proof -
  let ?others = "map (\<lambda>e. other_vert e (p ! i)) (link_edges (bm_verts bm ! (p ! i)))"
  from links i have d: "distinct ?others" and s: "set ?others = Some ` path_nbrs p i"
    by (simp_all add: path_links_def Let_def)
  have "\<forall>x \<in> set ?others. x \<noteq> None" using s by auto
  then have m: "?others = map Some (map the ?others)"
    by (simp add: map_idI)
  have "distinct (map the ?others)"
    using d m by (metis distinct_map)
  moreover have "set (map the ?others) = path_nbrs p i"
  proof -
    have "set (map the ?others) = the ` set ?others" by (simp only: set_map)
    also have "\<dots> = the ` Some ` path_nbrs p i" by (simp only: s)
    also have "\<dots> = path_nbrs p i" by (simp add: image_image)
    finally show ?thesis .
  qed
  ultimately show ?thesis using m that by blast
qed

lemma walk_path:
  assumes "distinct p" "path_links bm p" "\<forall>v \<in> set p. v < length (bm_verts bm)"
  shows "i < length p \<Longrightarrow> tags \<inter> set (drop i p) = {} \<Longrightarrow> (0 < i \<longrightarrow> p ! (i - 1) \<in> tags) \<Longrightarrow>
         length p - i \<le> depth \<Longrightarrow>
         walk_island depth bm (p ! i) tags = Inr (drop i p, tags \<union> set (drop i p))"
proof (induction depth arbitrary: i tags)
  case 0
  then show ?case by simp
next
  case (Suc depth)
  let ?v = "p ! i"
  let ?tags1 = "insert ?v tags"
  have v: "?v < length (bm_verts bm)" using assms(3) Suc.prems(1) by simp
  obtain us where us:
    "map (\<lambda>e. other_vert e ?v) (link_edges (bm_verts bm ! ?v)) = map Some us"
    "distinct us" "set us = path_nbrs p i"
    using path_linked_verts [OF assms(2) Suc.prems(1)] by blast
  have lu: "linked_untagged (link_edges (bm_verts bm ! ?v)) ?v ?tags1
      = Inr (filter (\<lambda>u. u \<notin> ?tags1) us)"
    using us(1) by (rule linked_untagged_eq)
  have dr: "drop i p = ?v # drop (Suc i) p"
    using Suc.prems(1) by (simp add: Cons_nth_drop_Suc)
  show ?case
  proof (cases "Suc i < length p")
    case False
    then have last: "drop (Suc i) p = []" by simp
    have "set us \<subseteq> ?tags1"
      using us(3) False Suc.prems(3) by (auto simp: path_nbrs_def)
    then have "filter (\<lambda>u. u \<notin> ?tags1) us = []" by (auto simp: filter_empty_conv)
    with lu v dr last show ?thesis by simp
  next
    case True
    let ?w = "p ! Suc i"
    have wv: "?w \<noteq> ?v"
      using assms(1) True by (simp add: nth_eq_iff_index_eq)
    have "?w \<in> set (drop i p)"
      using True dr by (metis Cons_nth_drop_Suc list.set_intros(1,2))
    then have wt: "?w \<notin> ?tags1" using Suc.prems(2) wv by auto
    have "{u \<in> set us. u \<notin> ?tags1} = {?w}"
      using us(3) True Suc.prems(3) wt by (auto simp: path_nbrs_def)
    then have "set (filter (\<lambda>u. u \<notin> ?tags1) us) = {?w}" by simp
    moreover have "distinct (filter (\<lambda>u. u \<notin> ?tags1) us)" using us(2) by simp
    ultimately have f: "filter (\<lambda>u. u \<notin> ?tags1) us = [?w]" by (rule distinct_set_single [rotated])
    have disj: "?tags1 \<inter> set (drop (Suc i) p) = {}"
    proof -
      have "?v \<notin> set (drop (Suc i) p)"
        using assms(1) Suc.prems(1) dr by (metis distinct.simps(2) distinct_drop)
      moreover have "tags \<inter> set (drop (Suc i) p) = {}"
        using Suc.prems(2) dr by auto
      ultimately show ?thesis by simp
    qed
    have "walk_island depth bm ?w ?tags1
        = Inr (drop (Suc i) p, ?tags1 \<union> set (drop (Suc i) p))"
      using Suc.IH [of "Suc i" ?tags1] True disj Suc.prems(4) by simp
    moreover have "?tags1 \<union> set (drop (Suc i) p) = tags \<union> set (drop i p)"
      using dr by auto
    ultimately show ?thesis using lu v f wt dr by simp
  qed
qed

lemma path_nbrs_rev:
  assumes "i < length p"
  shows "path_nbrs (rev p) i = path_nbrs p (length p - Suc i)"
proof -
  define n where "n = length p"
  define j where "j = n - Suc i"
  have a: "rev p ! (i - 1) = p ! Suc j" if "0 < i"
  proof -
    have e: "length p - Suc (i - 1) = Suc j" using that assms by (simp add: j_def n_def)
    have "i - 1 < length p" using assms by arith
    then have "rev p ! (i - 1) = p ! (length p - Suc (i - 1))" by (rule rev_nth)
    then show ?thesis by (simp only: e)
  qed
  have b: "rev p ! Suc i = p ! (j - 1)" if "Suc i < n"
  proof -
    have e: "length p - Suc (Suc i) = j - 1" by (simp add: j_def n_def)
    from that have "rev p ! Suc i = p ! (length p - Suc (Suc i))"
      unfolding n_def by (rule rev_nth)
    then show ?thesis by (simp only: e)
  qed
  have c: "0 < i \<longleftrightarrow> Suc j < n" using assms unfolding j_def n_def by arith
  have d: "Suc i < n \<longleftrightarrow> 0 < j" unfolding j_def n_def by arith
  have l: "path_nbrs (rev p) i =
      (if 0 < i then {rev p ! (i - 1)} else {}) \<union> (if Suc i < n then {rev p ! Suc i} else {})"
    by (simp add: path_nbrs_def n_def)
  have r: "path_nbrs p j =
      (if 0 < j then {p ! (j - 1)} else {}) \<union> (if Suc j < n then {p ! Suc j} else {})"
    by (simp add: path_nbrs_def n_def)
  have "path_nbrs (rev p) i = path_nbrs p j"
  proof (cases "0 < i")
    case True
    note i = True
    then have sj: "Suc j < n" using c by blast
    show ?thesis
    proof (cases "Suc i < n")
      case True
      then have "0 < j" using d by blast
      then show ?thesis
        unfolding l r using i sj True a [OF i] b [OF True] by (simp add: Un_commute)
    next
      case False
      then have "\<not> 0 < j" using d by blast
      then show ?thesis
        unfolding l r using i sj False a [OF i] by simp
    qed
  next
    case False
    note i = False
    then have sj: "\<not> Suc j < n" using c by blast
    show ?thesis
    proof (cases "Suc i < n")
      case True
      then have "0 < j" using d by blast
      then show ?thesis
        unfolding l r using i sj True b [OF True] by simp
    next
      case False
      then have "\<not> 0 < j" using d by blast
      then show ?thesis
        unfolding l r using i sj False by simp
    qed
  qed
  then show ?thesis by (simp only: j_def n_def)
qed

lemma path_links_rev:
  assumes "path_links bm p"
  shows "path_links bm (rev p)"
  unfolding path_links_def
proof (intro allI impI)
  fix i assume "i < length (rev p)"
  then have i: "i < length p" by simp
  then have j: "length p - Suc i < length p" by arith
  have r: "rev p ! i = p ! (length p - Suc i)" using i by (simp add: rev_nth)
  from assms j have
    "let others = map (\<lambda>e. other_vert e (p ! (length p - Suc i)))
                    (link_edges (bm_verts bm ! (p ! (length p - Suc i))))
     in distinct others \<and> set others = Some ` path_nbrs p (length p - Suc i)"
    unfolding path_links_def by blast
  then show "let others = map (\<lambda>e. other_vert e (rev p ! i))
                    (link_edges (bm_verts bm ! (rev p ! i)))
     in distinct others \<and> set others = Some ` path_nbrs (rev p) i"
    unfolding r path_nbrs_rev [OF i] .
qed

lemma walk_from_end:
  assumes "distinct p" "path_links bm p" "\<forall>v \<in> set p. v < length (bm_verts bm)"
    and "2 \<le> length p" "length p \<le> depth" "tags \<inter> set p = {}"
    and "s = hd p \<or> s = last p"
  obtains w where "walk_island depth bm s tags = Inr (w, tags \<union> set p)"
    "w = p \<or> w = rev p" "hd w = s"
proof -
  have ne: "p \<noteq> []" using assms(4) by auto
  from assms(7) show ?thesis
  proof
    assume s: "s = hd p"
    have "walk_island depth bm (p ! 0) tags = Inr (drop 0 p, tags \<union> set (drop 0 p))"
      using assms(4,5,6) by (intro walk_path [OF assms(1-3)]) auto
    then have "walk_island depth bm s tags = Inr (p, tags \<union> set p)"
      using s ne by (simp add: hd_conv_nth)
    then show ?thesis using that s by blast
  next
    assume s: "s = last p"
    have "walk_island depth bm (rev p ! 0) tags
        = Inr (drop 0 (rev p), tags \<union> set (drop 0 (rev p)))"
      using assms(1,3,4,5,6) by (intro walk_path [OF _ path_links_rev [OF assms(2)]]) auto
    moreover have "rev p ! 0 = last p" using ne by (simp add: rev_nth last_conv_nth)
    ultimately have "walk_island depth bm s tags = Inr (rev p, tags \<union> set p)"
      using s by simp
    moreover have "hd (rev p) = s" using s ne by (simp add: hd_rev)
    ultimately show ?thesis using that by blast
  qed
qed

lemma path_end_degree:
  assumes "distinct p" "path_links bm p" "2 \<le> length p" "i < length p"
  shows "length (link_edges (bm_verts bm ! (p ! i))) = 1 \<longleftrightarrow> i = 0 \<or> i = length p - 1"
proof -
  obtain us where us:
    "map (\<lambda>e. other_vert e (p ! i)) (link_edges (bm_verts bm ! (p ! i))) = map Some us"
    "distinct us" "set us = path_nbrs p i"
    using path_linked_verts [OF assms(2,4)] by blast
  have "length (link_edges (bm_verts bm ! (p ! i))) = length us"
    using us(1) by (metis length_map)
  also have "\<dots> = card (path_nbrs p i)"
    using us(2,3) by (metis distinct_card)
  finally have l: "length (link_edges (bm_verts bm ! (p ! i))) = card (path_nbrs p i)" .
  consider "i = 0" | "i = length p - 1" "0 < i" | "0 < i" "Suc i < length p"
    using assms(4) by arith
  then show ?thesis
  proof cases
    case 1
    then show ?thesis using l assms(3) by (simp add: path_nbrs_def)
  next
    case 2
    then have "\<not> Suc i < length p" using assms(4) by arith
    with 2 l show ?thesis by (simp add: path_nbrs_def)
  next
    case 3
    have "p ! (i - 1) \<noteq> p ! Suc i"
      using assms(1) 3 by (simp add: nth_eq_iff_index_eq)
    then have "card (path_nbrs p i) = 2" using 3 by (simp add: path_nbrs_def)
    with l 3 show ?thesis by simp
  qed
qed

lemma concat_disjoint:
  assumes "distinct (concat xss)" "xs \<in> set xss" "ys \<in> set xss" "x \<in> set xs" "x \<in> set ys"
  shows "xs = ys"
proof (rule ccontr)
  assume "xs \<noteq> ys"
  with assms(1-3) have "set xs \<inter> set ys = {}" by (simp add: distinct_concat_iff)
  with assms(4,5) show False by blast
qed

lemma path_mesh_facts:
  assumes "path_mesh bm paths" "p \<in> set paths"
  shows "distinct p" "2 \<le> length p" "path_links bm p" "\<forall>v \<in> set p. v < length (bm_verts bm)"
    "p \<noteq> []" "hd p \<in> set p" "last p \<in> set p" "hd p \<noteq> last p"
proof -
  show d: "distinct p" using assms by (simp add: path_mesh_def distinct_concat_iff)
  show l: "2 \<le> length p" using assms by (simp add: path_mesh_def)
  show "path_links bm p" using assms by (simp add: path_mesh_def)
  have "set p \<subseteq> set (concat paths)" using assms(2) by auto
  then show "\<forall>v \<in> set p. v < length (bm_verts bm)"
    using assms(1) by (auto simp: path_mesh_def)
  show ne: "p \<noteq> []" using l by auto
  then show "hd p \<in> set p" "last p \<in> set p" by simp_all
  have "0 < length p" "length p - 1 < length p" "0 \<noteq> length p - 1" using l by arith+
  then have "p ! 0 \<noteq> p ! (length p - 1)"
    using nth_eq_iff_index_eq [OF d] by blast
  then show "hd p \<noteq> last p" using ne by (simp add: hd_conv_nth last_conv_nth)
qed

lemma path_mesh_disjoint:
  assumes "path_mesh bm paths" "p \<in> set paths" "q \<in> set paths" "x \<in> set p" "x \<in> set q"
  shows "p = q"
  using assms concat_disjoint [of paths p q x] by (simp add: path_mesh_def)

lemma path_mesh_distinct_paths:
  assumes "path_mesh bm paths"
  shows "distinct paths"
proof -
  have "[] \<notin> set paths" using path_mesh_facts(5) [OF assms] by blast
  then have "removeAll [] paths = paths" by simp
  moreover have "distinct (removeAll [] paths)"
    using assms by (simp add: path_mesh_def distinct_concat_iff)
  ultimately show ?thesis by simp
qed

lemma start_verts_ends:
  assumes "path_mesh bm paths"
  shows "distinct (start_verts bm)"
    and "set (start_verts bm) = {s. \<exists>p \<in> set paths. s = hd p \<or> s = last p}"
proof -
  show "distinct (start_verts bm)" by (simp add: start_verts_def)
  show "set (start_verts bm) = {s. \<exists>p \<in> set paths. s = hd p \<or> s = last p}"
  proof (intro set_eqI iffI)
    fix s assume "s \<in> set (start_verts bm)"
    then have s: "s < length (bm_verts bm)" "length (link_edges (bm_verts bm ! s)) = 1"
      by (simp_all add: start_verts_def)
    from s(1) assms have "s \<in> set (concat paths)" by (simp add: path_mesh_def)
    then obtain p where p: "p \<in> set paths" "s \<in> set p" by auto
    then obtain i where i: "i < length p" "s = p ! i" by (auto simp: in_set_conv_nth)
    note f = path_mesh_facts [OF assms p(1)]
    from s(2) have "length (link_edges (bm_verts bm ! (p ! i))) = 1" unfolding i(2) .
    with path_end_degree [OF f(1) f(3) f(2) i(1)]
    have "i = 0 \<or> i = length p - 1" by blast
    then have "s = hd p \<or> s = last p"
      using i(2) f(5) by (auto simp: hd_conv_nth last_conv_nth)
    with p(1) show "s \<in> {s. \<exists>p \<in> set paths. s = hd p \<or> s = last p}" by blast
  next
    fix s assume "s \<in> {s. \<exists>p \<in> set paths. s = hd p \<or> s = last p}"
    then obtain p where p: "p \<in> set paths" "s = hd p \<or> s = last p" by blast
    note f = path_mesh_facts [OF assms p(1)]
    have "\<exists>i. i < length p \<and> s = p ! i \<and> (i = 0 \<or> i = length p - 1)"
    proof (cases "s = hd p")
      case True
      then have "0 < length p \<and> s = p ! 0" using f(5) by (simp add: hd_conv_nth)
      then show ?thesis by blast
    next
      case False
      with p(2) have "length p - 1 < length p \<and> s = p ! (length p - 1)"
        using f(5) by (simp add: last_conv_nth)
      then show ?thesis by blast
    qed
    then obtain i where i: "i < length p" "s = p ! i" "i = 0 \<or> i = length p - 1"
      by blast
    from path_end_degree [OF f(1) f(3) f(2) i(1)] i(3)
    have "length (link_edges (bm_verts bm ! (p ! i))) = 1" by blast
    then have "length (link_edges (bm_verts bm ! s)) = 1" unfolding i(2) .
    moreover have "p ! i \<in> set p" using i(1) by (rule nth_mem)
    then have "s < length (bm_verts bm)" using f(4) unfolding i(2) by blast
    ultimately show "s \<in> set (start_verts bm)" by (simp add: start_verts_def)
  qed
qed

lemma strand_length_ok:
  assumes "2 \<le> length w" "\<forall>v \<in> set w. v < length hair_coords"
  shows "\<exists>len. strand_length hair_coords w = Inr len"
proof -
  have "0 < length w" "length w - 2 < length w" using assms(1) by arith+
  then have "w ! 0 \<in> set w" "w ! (length w - 2) \<in> set w" by (simp_all only: nth_mem)
  then have "w ! 0 < length hair_coords" "w ! (length w - 2) < length hair_coords"
    using assms(2) by blast+
  then show ?thesis using assms(1) by (simp add: strand_length_def Let_def)
qed

lemma hairs_loop_paths:
  assumes pm: "path_mesh bm paths" and hc: "length hair_coords = length (bm_verts bm)"
    and dp: "\<forall>p \<in> set paths. length p \<le> depth"
  shows "D \<subseteq> set paths \<Longrightarrow> tags = \<Union>(set ` D) \<Longrightarrow> found \<subseteq> tags \<Longrightarrow> distinct rem \<Longrightarrow>
     \<forall>s \<in> set rem. \<exists>p \<in> set paths. s = hd p \<or> s = last p \<Longrightarrow>
     \<forall>p \<in> set paths - D. hd p \<in> set rem \<and> last p \<in> set rem \<Longrightarrow>
     \<forall>p \<in> D. \<forall>s \<in> set rem. s \<in> set p \<longrightarrow> s \<in> found \<Longrightarrow>
     \<exists>hairs. hairs_loop depth bm hair_coords rem found tags = Inr hairs
        \<and> distinct (concat (map fst hairs))
        \<and> set (concat (map fst hairs)) = \<Union>(set ` (set paths - D))
        \<and> length hairs = card (set paths - D)
        \<and> (\<forall>h \<in> set hairs. fst h \<in> set paths \<or> rev (fst h) \<in> set paths)"
proof (induction rem arbitrary: D tags found)
  case Nil
  then have e: "set paths - D = {}" by auto
  show ?case unfolding e by simp
next
  case (Cons s rem)
  note D = Cons.prems(1) and tags = Cons.prems(2) and found = Cons.prems(3)
    and dist = Cons.prems(4) and ends = Cons.prems(5) and todo = Cons.prems(6)
    and seen = Cons.prems(7)
  from ends obtain p where p: "p \<in> set paths" "s = hd p \<or> s = last p" by auto
  note f = path_mesh_facts [OF pm p(1)]
  have sp: "s \<in> set p" using p(2) f(6,7) by auto
  have rem_ends: "\<forall>t \<in> set rem. \<exists>q \<in> set paths. t = hd q \<or> t = last q"
    using ends by simp
  have drem: "distinct rem" using dist by simp
  show ?case
  proof (cases "s \<in> found")
    case True
    then obtain d where d: "d \<in> D" "s \<in> set d" using found tags by auto
    have pd: "p = d" using path_mesh_disjoint [OF pm p(1) _ sp d(2)] d(1) D by auto
    have todo': "\<forall>q \<in> set paths - D. hd q \<in> set rem \<and> last q \<in> set rem"
    proof
      fix q assume q: "q \<in> set paths - D"
      then have qp: "q \<noteq> p" using pd d(1) by auto
      note g = path_mesh_facts [OF pm] 
      have "s \<notin> set q"
        using path_mesh_disjoint [OF pm _ p(1) _ sp, of q] q qp by auto
      moreover have "hd q \<in> set q" "last q \<in> set q" using g(6,7) q by auto
      ultimately have "hd q \<noteq> s" "last q \<noteq> s" by auto
      with todo q show "hd q \<in> set rem \<and> last q \<in> set rem" by auto
    qed
    have seen': "\<forall>q \<in> D. \<forall>t \<in> set rem. t \<in> set q \<longrightarrow> t \<in> found"
      using seen by simp
    from Cons.IH [OF D tags found drem rem_ends todo' seen'] True
    show ?thesis by simp
  next
    case False
    have pD: "p \<notin> D" using seen sp False by auto
    have disj: "tags \<inter> set p = {}"
    proof (rule ccontr)
      assume "tags \<inter> set p \<noteq> {}"
      then obtain x d where "x \<in> set p" "d \<in> D" "x \<in> set d" using tags by auto
      then have "p = d" using path_mesh_disjoint [OF pm p(1) _ _ _, of d x] D by auto
      with \<open>d \<in> D\<close> pD show False by simp
    qed
    have len: "length p \<le> depth" using dp p(1) by simp
    obtain w where w: "walk_island depth bm s tags = Inr (w, tags \<union> set p)"
      "w = p \<or> w = rev p" "hd w = s"
      using walk_from_end [OF f(1) f(3) f(4) f(2) len disj p(2)] by blast
    have wset: "set w = set p" and wdist: "distinct w" and wlen: "2 \<le> length w"
      using w(2) f(1,2) by auto
    have wlast: "last w \<in> set p" "last w \<noteq> s" "last w = hd p \<or> last w = last p"
    proof -
      from w(2) show "last w = hd p \<or> last w = last p"
        using f(5) by (auto simp: last_rev)
      then show "last w \<in> set p" using f(6,7) by auto
      have "w \<noteq> []" using wlen by auto
      moreover have "w ! 0 \<noteq> w ! (length w - 1)"
      proof -
        have "0 < length w" "length w - 1 < length w" "0 \<noteq> length w - 1"
          using wlen by arith+
        then show ?thesis using nth_eq_iff_index_eq [OF wdist] by blast
      qed
      ultimately show "last w \<noteq> s" using w(3) by (simp add: hd_conv_nth last_conv_nth)
    qed
    have "\<forall>v \<in> set w. v < length hair_coords" using f(4) wset hc by simp
    from strand_length_ok [OF wlen this] obtain len' where
      sl: "strand_length hair_coords w = Inr len'" by blast
    let ?D = "insert p D" and ?tags = "tags \<union> set p" and ?found = "insert (last w) found"
    have D': "?D \<subseteq> set paths" using D p(1) by simp
    have tags': "?tags = \<Union>(set ` ?D)" using tags by auto
    have found': "?found \<subseteq> ?tags" using found wlast(1) by auto
    have todo': "\<forall>q \<in> set paths - ?D. hd q \<in> set rem \<and> last q \<in> set rem"
    proof
      fix q assume q: "q \<in> set paths - ?D"
      note g = path_mesh_facts [OF pm]
      have "s \<notin> set q"
        using path_mesh_disjoint [OF pm _ p(1) _ sp, of q] q by auto
      moreover have "hd q \<in> set q" "last q \<in> set q" using g(6,7) q by auto
      ultimately have "hd q \<noteq> s" "last q \<noteq> s" by auto
      with todo q show "hd q \<in> set rem \<and> last q \<in> set rem" by auto
    qed
    have seen': "\<forall>q \<in> ?D. \<forall>t \<in> set rem. t \<in> set q \<longrightarrow> t \<in> ?found"
    proof (intro ballI impI)
      fix q t assume q: "q \<in> ?D" and t: "t \<in> set rem" "t \<in> set q"
      show "t \<in> ?found"
      proof (cases "q = p")
        case False
        with q seen t show ?thesis by auto
      next
        case True
        from rem_ends t(1) obtain r where r: "r \<in> set paths" "t = hd r \<or> t = last r"
          by blast
        note g = path_mesh_facts [OF pm r(1)]
        have "t \<in> set r" using r(2) g(6,7) by auto
        then have "r = p" using path_mesh_disjoint [OF pm r(1) p(1), of t] t(2) True by simp
        then have "t = hd p \<or> t = last p" using r(2) by simp
        moreover have "t \<noteq> s" using dist t(1) by auto
        ultimately have "t = last w" using p(2) wlast(2,3) by auto
        then show ?thesis by simp
      qed
    qed
    from Cons.IH [OF D' tags' found' drem rem_ends todo' seen'] obtain hairs where h:
      "hairs_loop depth bm hair_coords rem ?found ?tags = Inr hairs"
      "distinct (concat (map fst hairs))"
      "set (concat (map fst hairs)) = \<Union>(set ` (set paths - ?D))"
      "length hairs = card (set paths - ?D)"
      "\<forall>h \<in> set hairs. fst h \<in> set paths \<or> rev (fst h) \<in> set paths"
      by blast
    let ?hairs = "(w, len') # hairs"
    have r: "hairs_loop depth bm hair_coords (s # rem) found tags = Inr ?hairs"
      using False w(1) sl h(1) by simp
    have split: "set paths - D = insert p (set paths - ?D)" "p \<notin> set paths - ?D"
      using p(1) pD by auto
    have "set w \<inter> \<Union>(set ` (set paths - ?D)) = {}"
    proof (rule ccontr)
      assume "set w \<inter> \<Union>(set ` (set paths - ?D)) \<noteq> {}"
      then obtain x q where x: "x \<in> set p" "q \<in> set paths - ?D" "x \<in> set q"
        using wset by auto
      then have "p = q" using path_mesh_disjoint [OF pm p(1) _ x(1) x(3)] by auto
      with x(2) show False by simp
    qed
    then have d: "distinct (concat (map fst ?hairs))"
      using wdist h(2,3) by simp
    have s: "set (concat (map fst ?hairs)) = \<Union>(set ` (set paths - D))"
      using h(3) wset unfolding split(1) by simp
    have c: "length ?hairs = card (set paths - D)"
      using h(4) split(2) unfolding split(1) by simp
    have m: "\<forall>h \<in> set ?hairs. fst h \<in> set paths \<or> rev (fst h) \<in> set paths"
      using h(5) w(2) p(1) by auto
    from r d s c m show ?thesis by blast
  qed
qed

text \<open>
  C2: let the hair mesh consist of vertex-disjoint simple open paths, each with at
  least two vertices, and let the recursion limit admit the longest of them. Then the
  extractor returns strands whose index sequences are pairwise disjoint and without
  repetition, together visit every vertex of the mesh, and are, one for each path,
  the path in one of its two directions.
\<close>

theorem C2_strands_partition_vertices:
  assumes "path_mesh bm paths" and "length hair_coords = length (bm_verts bm)"
    and "\<forall>p \<in> set paths. length p \<le> depth"
  shows "\<exists>hairs. get_individual_hairs depth bm hair_coords = Inr hairs
     \<and> distinct (concat (map fst hairs))
     \<and> set (concat (map fst hairs)) = set [0..<length (bm_verts bm)]
     \<and> length hairs = length paths
     \<and> (\<forall>h \<in> set hairs. fst h \<in> set paths \<or> rev (fst h) \<in> set paths)"
proof -
  note sv = start_verts_ends [OF assms(1)]
  have a: "{} \<subseteq> set paths" "{} = \<Union>(set ` ({} :: nat list set))" "{} \<subseteq> ({} :: nat set)"
    by simp_all
  have b: "\<forall>s \<in> set (start_verts bm). \<exists>p \<in> set paths. s = hd p \<or> s = last p"
    using sv(2) by blast
  have c: "\<forall>p \<in> set paths - {}. hd p \<in> set (start_verts bm) \<and> last p \<in> set (start_verts bm)"
    using sv(2) by blast
  have d: "\<forall>p \<in> ({} :: nat list set). \<forall>s \<in> set (start_verts bm). s \<in> set p \<longrightarrow> s \<in> {}"
    by simp
  from hairs_loop_paths [OF assms a sv(1) b c d] obtain hairs where h:
    "hairs_loop depth bm hair_coords (start_verts bm) {} {} = Inr hairs"
    "distinct (concat (map fst hairs))"
    "set (concat (map fst hairs)) = \<Union>(set ` (set paths - {}))"
    "length hairs = card (set paths - {})"
    "\<forall>h \<in> set hairs. fst h \<in> set paths \<or> rev (fst h) \<in> set paths"
    by blast
  have "\<Union>(set ` (set paths - {})) = set [0..<length (bm_verts bm)]"
    using assms(1) by (simp add: path_mesh_def)
  moreover have "card (set paths - {}) = length paths"
    using path_mesh_distinct_paths [OF assms(1)] by (simp add: distinct_card)
  ultimately show ?thesis
    using h unfolding get_individual_hairs_def by auto
qed

theorem C2_strands_partition_vertices_witness:
  "\<exists>hairs.
     get_individual_hairs 3
       \<lparr>bm_verts =
          [\<lparr>link_edges = [\<lparr>verts = (0, 1), is_boundary = False\<rparr>]\<rparr>,
           \<lparr>link_edges = [\<lparr>verts = (1, 2), is_boundary = False\<rparr>,
                          \<lparr>verts = (0, 1), is_boundary = False\<rparr>]\<rparr>,
           \<lparr>link_edges = [\<lparr>verts = (1, 2), is_boundary = False\<rparr>]\<rparr>,
           \<lparr>link_edges = [\<lparr>verts = (3, 4), is_boundary = False\<rparr>]\<rparr>,
           \<lparr>link_edges = [\<lparr>verts = (3, 4), is_boundary = False\<rparr>]\<rparr>],
        bm_edges = [\<lparr>verts = (0, 1), is_boundary = False\<rparr>,
                    \<lparr>verts = (1, 2), is_boundary = False\<rparr>,
                    \<lparr>verts = (3, 4), is_boundary = False\<rparr>]\<rparr>
       [(0, 0, 0), (1, 0, 0), (2, 0, 0), (0, 0, 0), (0, 1, 0)] = Inr hairs
     \<and> distinct (concat (map fst hairs))
     \<and> set (concat (map fst hairs)) = {0, 1, 2, 3, 4}
     \<and> length hairs = 2"
proof -
  let ?bm = "\<lparr>bm_verts =
          [\<lparr>link_edges = [\<lparr>verts = (0, 1), is_boundary = False\<rparr>]\<rparr>,
           \<lparr>link_edges = [\<lparr>verts = (1, 2), is_boundary = False\<rparr>,
                          \<lparr>verts = (0, 1), is_boundary = False\<rparr>]\<rparr>,
           \<lparr>link_edges = [\<lparr>verts = (1, 2), is_boundary = False\<rparr>]\<rparr>,
           \<lparr>link_edges = [\<lparr>verts = (3, 4), is_boundary = False\<rparr>]\<rparr>,
           \<lparr>link_edges = [\<lparr>verts = (3, 4), is_boundary = False\<rparr>]\<rparr>],
        bm_edges = [\<lparr>verts = (0, 1), is_boundary = False\<rparr>,
                    \<lparr>verts = (1, 2), is_boundary = False\<rparr>,
                    \<lparr>verts = (3, 4), is_boundary = False\<rparr>]\<rparr>"
  have l1: "path_links ?bm [0, 1, 2]"
    by (auto simp: path_links_def path_nbrs_def other_vert_def Let_def less_Suc_eq
        numeral_3_eq_3 numeral_2_eq_2)
  have l2: "path_links ?bm [3, 4]"
    by (auto simp: path_links_def path_nbrs_def other_vert_def Let_def less_Suc_eq
        numeral_2_eq_2)
  have pm: "path_mesh ?bm [[0, 1, 2], [3, 4]]"
    using l1 l2 by (simp add: path_mesh_def upt_conv_Cons) auto
  from C2_strands_partition_vertices [OF pm,
      of "[(0, 0, 0), (1, 0, 0), (2, 0, 0), (0, 0, 0), (0, 1, 0)]" 3]
  obtain hairs where
    "get_individual_hairs 3 ?bm [(0, 0, 0), (1, 0, 0), (2, 0, 0), (0, 0, 0), (0, 1, 0)]
       = Inr hairs"
    "distinct (concat (map fst hairs))"
    "set (concat (map fst hairs)) = set [0..<length (bm_verts ?bm)]"
    "length hairs = length [[0 :: nat, 1, 2], [3, 4]]"
    by auto
  moreover have "set [0..<length (bm_verts ?bm)] = {0, 1, 2, 3, 4}"
    by (simp add: upt_conv_Cons) auto
  ultimately show ?thesis by auto
qed

lemma vnorm_self: "vnorm (vsub x x) = 0"
  by (cases x) simp

lemma hairs_loop_lengths:
  "hairs_loop depth bm hair_coords rem found tags = Inr hairs \<Longrightarrow>
   (island_idxs, len) \<in> set hairs \<Longrightarrow> strand_length hair_coords island_idxs = Inr len"
proof (induction rem arbitrary: found tags hairs)
  case Nil
  then show ?case by simp
next
  case (Cons s rem)
  show ?case
  proof (cases "s \<in> found")
    case True
    with Cons show ?thesis by simp
  next
    case False
    with Cons.prems(1) obtain w tags1 len1 hairs1 where
      w: "walk_island depth bm s tags = Inr (w, tags1)"
      and sl: "strand_length hair_coords w = Inr len1"
      and r: "hairs_loop depth bm hair_coords rem (insert (last w) found) tags1 = Inr hairs1"
      and h: "hairs = (w, len1) # hairs1"
      by (auto split: sum.splits)
    from Cons.prems(2) h consider "(island_idxs, len) = (w, len1)"
      | "(island_idxs, len) \<in> set hairs1" by auto
    then show ?thesis
    proof cases
      case 1
      with sl show ?thesis by simp
    next
      case 2
      from Cons.IH [OF r 2] show ?thesis .
    qed
  qed
qed

text \<open>
  C3: the length paired with an extracted strand is the Euclidean distance of the
  coordinates of its first and its second-to-last index; the strand has at least two
  indices, and one of exactly two indices has length 0.
\<close>

theorem C3_strand_length:
  assumes "get_individual_hairs depth bm hair_coords = Inr hairs"
    and "(island_idxs, len) \<in> set hairs"
  shows "2 \<le> length island_idxs
    \<and> len = vnorm (vsub (hair_coords ! (island_idxs ! 0))
                        (hair_coords ! (island_idxs ! (length island_idxs - 2))))
    \<and> (length island_idxs = 2 \<longrightarrow> len = 0)"
proof -
  from assms have sl: "strand_length hair_coords island_idxs = Inr len"
    unfolding get_individual_hairs_def by (rule hairs_loop_lengths)
  then have l: "2 \<le> length island_idxs"
    by (auto simp: strand_length_def split: if_splits)
  from sl have v: "len = vnorm (vsub (hair_coords ! (island_idxs ! 0))
                        (hair_coords ! (island_idxs ! (length island_idxs - 2))))"
    by (auto simp: strand_length_def Let_def split: if_splits)
  have "len = 0" if "length island_idxs = 2"
    using v that by (simp add: vnorm_self)
  with l v show ?thesis by blast
qed

theorem C3_strand_length_witness:
  "get_individual_hairs 3
       \<lparr>bm_verts =
          [\<lparr>link_edges = [\<lparr>verts = (0, 1), is_boundary = False\<rparr>]\<rparr>,
           \<lparr>link_edges = [\<lparr>verts = (1, 2), is_boundary = False\<rparr>,
                          \<lparr>verts = (0, 1), is_boundary = False\<rparr>]\<rparr>,
           \<lparr>link_edges = [\<lparr>verts = (1, 2), is_boundary = False\<rparr>]\<rparr>,
           \<lparr>link_edges = [\<lparr>verts = (3, 4), is_boundary = False\<rparr>]\<rparr>,
           \<lparr>link_edges = [\<lparr>verts = (3, 4), is_boundary = False\<rparr>]\<rparr>],
        bm_edges = []\<rparr>
       [(0, 0, 0), (1, 0, 0), (2, 0, 0), (0, 0, 0), (0, 1, 0)]
     = Inr [([0, 1, 2], 1), ([3, 4], 0)]
   \<and> (1 :: real) = vnorm (vsub (0, 0, 0) (1, 0, 0))
   \<and> (1 :: real) \<noteq> vnorm (vsub (0, 0, 0) (2, 0, 0))"
proof -
  let ?bm = "\<lparr>bm_verts =
          [\<lparr>link_edges = [\<lparr>verts = (0, 1), is_boundary = False\<rparr>]\<rparr>,
           \<lparr>link_edges = [\<lparr>verts = (1, 2), is_boundary = False\<rparr>,
                          \<lparr>verts = (0, 1), is_boundary = False\<rparr>]\<rparr>,
           \<lparr>link_edges = [\<lparr>verts = (1, 2), is_boundary = False\<rparr>]\<rparr>,
           \<lparr>link_edges = [\<lparr>verts = (3, 4), is_boundary = False\<rparr>]\<rparr>,
           \<lparr>link_edges = [\<lparr>verts = (3, 4), is_boundary = False\<rparr>]\<rparr>],
        bm_edges = []\<rparr>"
  let ?coords = "[(0, 0, 0), (1, 0, 0), (2, 0, 0), (0, 0, 0), (0, 1, 0)] :: vec3 list"
  have r: "get_individual_hairs 3 ?bm ?coords = Inr [([0, 1, 2], 1), ([3, 4], 0)]"
    by (simp add: get_individual_hairs_def start_verts_def upt_conv_Cons other_vert_def
        strand_length_def Let_def numeral_eq_Suc)
  have "([0, 1, 2], 1) \<in> set [([0 :: nat, 1, 2], 1 :: real), ([3, 4], 0)]" by simp
  from C3_strand_length [OF r this] have "(1 :: real) = vnorm (vsub (0, 0, 0) (1, 0, 0))"
    by simp
  then show ?thesis using r by simp
qed


subsection \<open>UV zone mapper\<close>

lemma random_choice_mem:
  "random_choice src pos seq = Inr (x, pos') \<Longrightarrow> x \<in> set seq \<and> pos' = Suc pos"
  by (auto simp: random_choice_def split: if_splits)

lemma choose_zone_bucket:
  assumes "choose_zone d len width src pos = Inr (zone, pos')"
  shows "\<exists>table subdict bucket.
           dict_get d (if len > 0.05 then ''long'' else ''short'') = Inr table
         \<and> subdict \<in> set (dict_values table)
         \<and> dict_get subdict
              (if width > (if len > 0.05 then 0.02 else 0.01) then ''wide'' else ''narrow'')
             = Inr bucket
         \<and> zone \<in> set bucket"
proof (cases "len > 0.05")
  case True
  with assms obtain table subdict pos1 where
    t: "dict_get d ''long'' = Inr table"
    and s: "random_choice src pos (dict_values table) = Inr (subdict, pos1)"
    and r: "(if width > 0.02
             then (case dict_get subdict ''wide'' of Inl e \<Rightarrow> Inl e
                   | Inr zones \<Rightarrow> random_choice src pos1 zones)
             else (case dict_get subdict ''narrow'' of Inl e \<Rightarrow> Inl e
                   | Inr zones \<Rightarrow> random_choice src pos1 zones)) = Inr (zone, pos')"
    by (auto simp: choose_zone_def split: sum.splits)
  from r obtain bucket where
    b: "dict_get subdict (if width > 0.02 then ''wide'' else ''narrow'') = Inr bucket"
    and c: "random_choice src pos1 bucket = Inr (zone, pos')"
    by (auto split: if_splits sum.splits)
  have sd: "subdict \<in> set (dict_values table)" using random_choice_mem [OF s] by simp
  have z: "zone \<in> set bucket" using random_choice_mem [OF c] by simp
  show ?thesis
    by (rule exI [of _ table], rule exI [of _ subdict], rule exI [of _ bucket])
       (use True t sd b z in simp)
next
  case False
  with assms obtain table subdict pos1 where
    t: "dict_get d ''short'' = Inr table"
    and s: "random_choice src pos (dict_values table) = Inr (subdict, pos1)"
    and r: "(if width > 0.01
             then (case dict_get subdict ''wide'' of Inl e \<Rightarrow> Inl e
                   | Inr zones \<Rightarrow> random_choice src pos1 zones)
             else (case dict_get subdict ''narrow'' of Inl e \<Rightarrow> Inl e
                   | Inr zones \<Rightarrow> random_choice src pos1 zones)) = Inr (zone, pos')"
    by (auto simp: choose_zone_def split: sum.splits)
  from r obtain bucket where
    b: "dict_get subdict (if width > 0.01 then ''wide'' else ''narrow'') = Inr bucket"
    and c: "random_choice src pos1 bucket = Inr (zone, pos')"
    by (auto split: if_splits sum.splits)
  have sd: "subdict \<in> set (dict_values table)" using random_choice_mem [OF s] by simp
  have z: "zone \<in> set bucket" using random_choice_mem [OF c] by simp
  show ?thesis
    by (rule exI [of _ table], rule exI [of _ subdict], rule exI [of _ bucket])
       (use False t sd b z in simp)
qed

lemma hair_card_zone:
  assumes "hair_card d k vs vld src i pos uvl = Inr (zone, pos', uvl')"
  shows "\<exists>table subdict bucket.
           dict_get d (if card_length (hair_verts_of vs i (k * 2)) k > 0.05
                       then ''long'' else ''short'') = Inr table
         \<and> subdict \<in> set (dict_values table)
         \<and> dict_get subdict
              (if card_width (hair_verts_of vs i (k * 2))
                    > (if card_length (hair_verts_of vs i (k * 2)) k > 0.05 then 0.02 else 0.01)
               then ''wide'' else ''narrow'') = Inr bucket
         \<and> zone \<in> set bucket"
proof -
  from assms obtain pos1 where
    "choose_zone d (card_length (hair_verts_of vs i (k * 2)) k)
       (card_width (hair_verts_of vs i (k * 2))) src pos = Inr (zone, pos1)"
    by (auto simp: hair_card_def Let_def split: if_splits sum.splits)
  then show ?thesis by (rule choose_zone_bucket)
qed

lemma cards_loop_zones:
  assumes "cards_loop d k vs vld src idxs pos uvl = Inr (zones, pos', uvl')"
  shows "length zones = length idxs
    \<and> (\<forall>c < length idxs. \<exists>pos1 pos2 uvl1 uvl2.
          hair_card d k vs vld src (idxs ! c) pos1 uvl1 = Inr (zones ! c, pos2, uvl2))"
  using assms
proof (induction idxs arbitrary: zones pos uvl)
  case Nil
  then show ?case by simp
next
  case (Cons i idxs)
  from Cons.prems obtain z pos1 uvl1 zs where
    h: "hair_card d k vs vld src i pos uvl = Inr (z, pos1, uvl1)"
    and r: "cards_loop d k vs vld src idxs pos1 uvl1 = Inr (zs, pos', uvl')"
    and zs: "zones = z # zs"
    by (auto split: sum.splits)
  note ih = Cons.IH [OF r]
  have "\<exists>pos1 pos2 uvl1 uvl2.
          hair_card d k vs vld src ((i # idxs) ! c) pos1 uvl1 = Inr (zones ! c, pos2, uvl2)"
    if "c < length (i # idxs)" for c
  proof (cases c)
    case 0
    with h zs show ?thesis by auto
  next
    case (Suc c')
    with that ih zs show ?thesis by auto
  qed
  with ih zs show ?case by simp
qed

lemma py_range_nth:
  "length (py_range n step) = (n + step - 1) div step
   \<and> (c < length (py_range n step) \<longrightarrow> py_range n step ! c = c * step)"
  by (simp add: py_range_def)

text \<open>
  C7: for every random source and every card processed by \<open>_set_vert_group_uvs\<close>, the
  zone chosen for the card is an element of the \<open>wide\<close> or \<open>narrow\<close> list of one of the
  zone groups of the \<open>long\<close> or \<open>short\<close> table, where the table is \<open>long\<close> iff the measured
  length of the card exceeds 0.05, and the list is \<open>wide\<close> iff its measured width exceeds
  0.02 (long) or 0.01 (short). One zone is chosen for every card.
\<close>

theorem C7_zone_from_matching_bucket:
  assumes "set_vert_group_uvs hairzone_uv_dict vert_len coords vert_loop_dict src pos uv_layer
             = Inr (zones, pos', uv_layer')"
    and "c < length zones"
  shows "length zones = (length coords + vert_len * 2 - 1) div (vert_len * 2)
    \<and> (\<exists>table subdict bucket.
         dict_get hairzone_uv_dict
           (if card_length (hair_verts_of (enumerate 0 coords) (c * (vert_len * 2))
                  (vert_len * 2)) vert_len > 0.05
            then ''long'' else ''short'') = Inr table
         \<and> subdict \<in> set (dict_values table)
         \<and> dict_get subdict
              (if card_width (hair_verts_of (enumerate 0 coords) (c * (vert_len * 2))
                    (vert_len * 2))
                  > (if card_length (hair_verts_of (enumerate 0 coords) (c * (vert_len * 2))
                          (vert_len * 2)) vert_len > 0.05
                     then 0.02 else 0.01)
               then ''wide'' else ''narrow'') = Inr bucket
         \<and> zones ! c \<in> set bucket)"
proof -
  let ?idxs = "py_range (length coords) (vert_len * 2)"
  from assms(1) have
    "cards_loop hairzone_uv_dict vert_len (enumerate 0 coords) vert_loop_dict src ?idxs pos
       uv_layer = Inr (zones, pos', uv_layer')"
    by (simp add: set_vert_group_uvs_def split: if_splits)
  note cl = cards_loop_zones [OF this]
  have len: "length zones = (length coords + vert_len * 2 - 1) div (vert_len * 2)"
    using cl py_range_nth [of "length coords" "vert_len * 2" c] by simp
  have idx: "?idxs ! c = c * (vert_len * 2)"
    using cl assms(2) py_range_nth [of "length coords" "vert_len * 2" c] by simp
  from cl assms(2) obtain pos1 pos2 uvl1 uvl2 where
    "hair_card hairzone_uv_dict vert_len (enumerate 0 coords) vert_loop_dict src (?idxs ! c)
       pos1 uvl1 = Inr (zones ! c, pos2, uvl2)"
    by auto
  from hair_card_zone [OF this] len show ?thesis unfolding idx by blast
qed

theorem C7_zone_from_matching_bucket_witness:
  "\<exists>table subdict bucket.
     dict_get
       ([(''long'', [(''g'', [(''wide'', [((0, 0), (1, 1))]), (''narrow'', [((2, 2), (3, 3))])])]),
         (''short'', [(''h'', [(''wide'', [((4, 4), (5, 5))]), (''narrow'', [((6, 6), (7, 7))])])])]
        :: zone_dict)
       ''short'' = Inr table
     \<and> subdict \<in> set (dict_values table)
     \<and> dict_get subdict ''wide'' = Inr bucket
     \<and> ((4, 4), (5, 5)) \<in> set bucket"
proof -
  let ?d = "[(''long'', [(''g'', [(''wide'', [((0, 0), (1, 1))]),
                                 (''narrow'', [((2, 2), (3, 3))])])]),
             (''short'', [(''h'', [(''wide'', [((4, 4), (5, 5))]),
                                  (''narrow'', [((6, 6), (7, 7))])])])] :: zone_dict"
  let ?coords = "[(0, 0, 0), (0, 1, 0), (0, 0, 0), (1, 0, 0)] :: vec3 list"
  have l: "card_length (hair_verts_of (enumerate 0 ?coords) (0 * (2 * 2)) (2 * 2)) 2 = 0"
    by (simp add: card_length_def hair_verts_of_def enumerate_eq_zip upt_conv_Cons)
  have w: "card_width (hair_verts_of (enumerate 0 ?coords) (0 * (2 * 2)) (2 * 2)) = 1"
    by (simp add: card_width_def hair_verts_of_def enumerate_eq_zip upt_conv_Cons)
  have "\<exists>pos' uv_layer'.
      set_vert_group_uvs ?d 2 ?coords (\<lambda>v. Some [v]) (\<lambda>n. 0) 0 (\<lambda>loop. (0, 0))
        = Inr ([((4, 4), (5, 5))], pos', uv_layer')"
    by (simp add: set_vert_group_uvs_def py_range_def hair_card_def Let_def
        hair_verts_of_def card_length_def card_width_def
        choose_zone_def dict_get_def dict_values_def random_choice_def enumerate_eq_zip
        upt_conv_Cons)
  then obtain pos' uv_layer' where
    "set_vert_group_uvs ?d 2 ?coords (\<lambda>v. Some [v]) (\<lambda>n. 0) 0 (\<lambda>loop. (0, 0))
        = Inr ([((4, 4), (5, 5))], pos', uv_layer')"
    by blast
  from C7_zone_from_matching_bucket [OF this, of 0, unfolded l w] show ?thesis
    by simp
qed


subsection \<open>Haircap density and vertex colours\<close>

lemma fill_vg_values_eq:
  "fill_vg_values vg idxs vals =
     Inr (fold (\<lambda>i vs. case vg i of None \<Rightarrow> vs | Some w \<Rightarrow> vs[i := w]) idxs vals)"
  by (induction idxs arbitrary: vals) (auto simp: vg_weight_def split: option.splits)

lemma fold_fill_length:
  "length (fold (\<lambda>i vs. case vg i of None \<Rightarrow> vs | Some w \<Rightarrow> vs[i := w]) idxs vals) = length vals"
  by (induction idxs arbitrary: vals) (auto split: option.splits)

lemma fold_fill_nth:
  "distinct idxs \<Longrightarrow> v < length vals \<Longrightarrow>
   fold (\<lambda>i vs. case vg i of None \<Rightarrow> vs | Some w \<Rightarrow> vs[i := w]) idxs vals ! v =
     (if v \<in> set idxs then (case vg v of None \<Rightarrow> vals ! v | Some w \<Rightarrow> w) else vals ! v)"
proof (induction idxs arbitrary: vals)
  case Nil
  then show ?case by simp
next
  case (Cons i idxs)
  show ?case
  proof (cases "vg i")
    case None
    with Cons show ?thesis by auto
  next
    case (Some w)
    have ne: "v \<in> set idxs \<Longrightarrow> i \<noteq> v" using Cons.prems(1) by auto
    with Some Cons show ?thesis by (auto simp: nth_list_update split: option.splits)
  qed
qed

lemma fill_vg_values_zero:
  "fill_vg_values vg [0..<n] (replicate n 0) =
     Inr (map (\<lambda>v. case vg v of None \<Rightarrow> 0 | Some w \<Rightarrow> w) [0..<n])"
proof -
  let ?r = "fold (\<lambda>i vs. case vg i of None \<Rightarrow> vs | Some w \<Rightarrow> vs[i := w]) [0..<n] (replicate n 0)"
  have "?r = map (\<lambda>v. case vg v of None \<Rightarrow> 0 | Some w \<Rightarrow> w) [0..<n]"
    by (rule nth_equalityI) (simp_all add: fold_fill_length fold_fill_nth split: option.splits)
  then show ?thesis by (simp add: fill_vg_values_eq)
qed

lemma sum_vertex_groups_eq:
  "length acc = n \<Longrightarrow>
   sum_vertex_groups n groups acc =
     Inr (map (\<lambda>v. acc ! v + (\<Sum>vg\<leftarrow>groups. case vg v of None \<Rightarrow> 0 | Some w \<Rightarrow> w)) [0..<n])"
proof (induction groups arbitrary: acc)
  case Nil
  then show ?case by (auto simp: map_nth)
next
  case (Cons vg groups)
  let ?vals = "map (\<lambda>v. case vg v of None \<Rightarrow> 0 | Some w \<Rightarrow> w) [0..<n]"
  have len: "length (map2 (+) acc ?vals) = n" using Cons.prems by simp
  have nth: "map2 (+) acc ?vals ! v = acc ! v + (case vg v of None \<Rightarrow> 0 | Some w \<Rightarrow> w)"
    if "v < n" for v using that Cons.prems by simp
  show ?case
    using Cons.IH [OF len] nth by (simp add: fill_vg_values_zero add.assoc)
qed

lemma rint_near: "\<bar>of_int (rint x) - x\<bar> \<le> 1 / 2"
proof -
  have "of_int \<lfloor>x\<rfloor> \<le> x" "x < of_int \<lfloor>x\<rfloor> + 1" by linarith+
  then show ?thesis by (auto simp: rint_def Let_def)
qed

lemma np_round_4_near: "\<bar>np_round x 4 - x\<bar> \<le> 1 / 20000"
proof -
  have "\<bar>of_int (rint (x * 10000)) - x * 10000\<bar> \<le> 1 / 2" by (rule rint_near)
  then have "\<bar>of_int (rint (x * 10000)) / 10000 - x\<bar> \<le> 1 / 20000" by (simp add: field_simps abs_le_iff)
  then show ?thesis by (simp add: np_round_def)
qed

lemma np_round_4_decimals: "np_round x 4 * 10000 = of_int (rint (x * 10000))"
  by (simp add: np_round_def)

lemma np_clip_unit: "0 \<le> np_clip x 0 1 \<and> np_clip x 0 1 \<le> 1"
  by (simp add: np_clip_def)

lemma aggregate_density_eq:
  "aggregate_density n groups =
     Inr (map (\<lambda>v. np_clip (np_round (\<Sum>vg\<leftarrow>groups. case vg v of None \<Rightarrow> 0 | Some w \<Rightarrow> w) 4) 0 1)
            [0..<n])"
  by (simp add: aggregate_density_def sum_vertex_groups_eq)

lemma paint_density_result:
  assumes "\<forall>(i, co) \<in> set ps. i < length vc \<and> kd co < length agg" "distinct (map fst ps)"
  shows "\<exists>vc'. paint_density kd agg ps vc = Inr vc' \<and> length vc' = length vc
           \<and> (\<forall>(i, co) \<in> set ps. vc' ! i = (agg ! kd co, agg ! kd co, agg ! kd co, 1))
           \<and> (\<forall>j. j \<notin> fst ` set ps \<longrightarrow> vc' ! j = vc ! j)"
  using assms
proof (induction ps arbitrary: vc)
  case Nil
  then show ?case by simp
next
  case (Cons p ps)
  obtain i co where p: "p = (i, co)" by (cases p)
  let ?c = "(agg ! kd co, agg ! kd co, agg ! kd co, 1::real)"
  have i: "i < length vc" "kd co < length agg" using Cons.prems(1) p by auto
  have rest: "\<forall>(j, c) \<in> set ps. j < length (vc[i := ?c]) \<and> kd c < length agg"
    using Cons.prems(1) by auto
  have d: "distinct (map fst ps)" "i \<notin> fst ` set ps" using Cons.prems(2) p by auto
  from Cons.IH [OF rest d(1)] obtain vc' where vc':
    "paint_density kd agg ps (vc[i := ?c]) = Inr vc'" "length vc' = length vc"
    "\<forall>(j, c) \<in> set ps. vc' ! j = (agg ! kd c, agg ! kd c, agg ! kd c, 1)"
    "\<forall>j. j \<notin> fst ` set ps \<longrightarrow> vc' ! j = vc[i := ?c] ! j"
    by auto
  have "paint_density kd agg (p # ps) vc = Inr vc'"
    using i vc'(1) p by (simp add: Let_def)
  moreover have "vc' ! i = ?c" using vc'(4) d(2) i by simp
  moreover have "\<forall>j. j \<notin> fst ` set (p # ps) \<longrightarrow> vc' ! j = vc ! j"
    using vc'(4) p by auto
  ultimately show ?case using vc'(2,3) p by auto
qed

lemma paint_density_enumerate:
  assumes "\<forall>co \<in> set coords. kd co < length agg" "length coords \<le> length vc"
  shows "\<exists>painted. paint_density kd agg (enumerate 0 coords) vc = Inr painted
           \<and> length painted = length vc
           \<and> (\<forall>i < length coords.
                 painted ! i = (agg ! kd (coords ! i), agg ! kd (coords ! i),
                                agg ! kd (coords ! i), 1))"
proof -
  have a: "\<forall>(i, co) \<in> set (enumerate 0 coords). i < length vc \<and> kd co < length agg"
  proof -
    have k: "kd (coords ! i) < length agg" if "i < length coords" for i
      using assms(1) nth_mem [OF that] by blast
    show ?thesis
    proof
      fix p assume p: "p \<in> set (enumerate 0 coords)"
      then have "fst p < length coords" "snd p = coords ! fst p"
        by (simp_all add: in_set_enumerate_eq)
      then have "fst p < length vc \<and> kd (snd p) < length agg"
        using k [of "fst p"] assms(2) by simp
      then show "case p of (i, co) \<Rightarrow> i < length vc \<and> kd co < length agg"
        by (simp add: case_prod_beta)
    qed
  qed
  have b: "distinct (map fst (enumerate 0 coords))" by simp
  from paint_density_result [OF a b] obtain painted where p:
    "paint_density kd agg (enumerate 0 coords) vc = Inr painted" "length painted = length vc"
    "\<forall>(i, co) \<in> set (enumerate 0 coords).
        painted ! i = (agg ! kd co, agg ! kd co, agg ! kd co, 1)"
    by blast
  have "painted ! i = (agg ! kd (coords ! i), agg ! kd (coords ! i), agg ! kd (coords ! i), 1)"
    if "i < length coords" for i
  proof -
    have "(i, coords ! i) \<in> set (enumerate 0 coords)"
      using that by (simp add: in_set_enumerate_eq)
    with p(3) show ?thesis by blast
  qed
  with p(1,2) show ?thesis by blast
qed

lemma zero_boundary_result:
  "zero_boundary es vc = Inr vc' \<Longrightarrow>
     length vc' = length vc
     \<and> (\<forall>j. vc ! j = (0, 0, 0, 1) \<longrightarrow> vc' ! j = (0, 0, 0, 1))
     \<and> (\<forall>e \<in> set es. is_boundary e \<longrightarrow>
           fst (verts e) < length vc \<and> snd (verts e) < length vc
           \<and> vc' ! fst (verts e) = (0, 0, 0, 1) \<and> vc' ! snd (verts e) = (0, 0, 0, 1))"
proof (induction es arbitrary: vc)
  case Nil
  then show ?case by simp
next
  case (Cons e es)
  show ?case
  proof (cases "is_boundary e")
    case False
    with Cons show ?thesis by auto
  next
    case True
    obtain v1 v2 where v: "verts e = (v1, v2)" by (cases "verts e")
    let ?vc = "vc[v1 := (0, 0, 0, 1), v2 := (0, 0, 0, 1)]"
    from Cons.prems True v have lt: "v1 < length vc" "v2 < length vc"
      and r: "zero_boundary es ?vc = Inr vc'"
      by (auto simp: Let_def split: if_splits)
    note ih = Cons.IH [OF r]
    have keep: "vc ! j = (0, 0, 0, 1) \<Longrightarrow> ?vc ! j = (0, 0, 0, 1)" for j
      using lt by (cases "j < length vc") (auto simp: nth_list_update)
    have "?vc ! v1 = (0, 0, 0, 1)" "?vc ! v2 = (0, 0, 0, 1)"
      using lt by (auto simp: nth_list_update)
    with ih v True lt keep show ?thesis by auto
  qed
qed

lemma zero_boundary_total:
  "\<forall>e \<in> set es. is_boundary e \<longrightarrow> fst (verts e) < length vc \<and> snd (verts e) < length vc \<Longrightarrow>
   \<exists>vc'. zero_boundary es vc = Inr vc'"
  by (induction es arbitrary: vc) (auto simp: Let_def split: prod.splits)

text \<open>
  C9: the aggregate density never fails; for every body vertex it is the sum over the
  groups of the vertex's weight, a group that does not contain the vertex counting 0,
  rounded to four decimals (the value is a multiple of 1/10000 at most 1/20000 away)
  and then clamped to \<open>[0, 1]\<close>. If the KD tree returns body vertex indices and
  \<open>vc.data\<close> has an entry for every haircap vertex, the painting loop succeeds and
  haircap vertex \<open>i\<close> gets the colour \<open>(a, a, a, 1)\<close>, \<open>a\<close> the aggregate density of the
  body vertex found for its coordinate.
\<close>

theorem C9_aggregate_density:
  assumes "\<forall>co \<in> set haircap_world_coords. kd_find co < vert_count"
    and "length haircap_world_coords \<le> length vc_data"
  shows "aggregate_density vert_count density_vertex_groups =
       Inr (map (\<lambda>v. np_clip (np_round
              (\<Sum>vg\<leftarrow>density_vertex_groups. case vg v of None \<Rightarrow> 0 | Some w \<Rightarrow> w) 4) 0 1)
            [0..<vert_count])
    \<and> \<bar>np_round x 4 - x\<bar> \<le> 1 / 20000
    \<and> np_round x 4 * 10000 = of_int (rint (x * 10000))
    \<and> 0 \<le> np_clip y 0 1 \<and> np_clip y 0 1 \<le> 1
    \<and> np_clip y 0 1 = (if y < 0 then 0 else if 1 < y then 1 else y)
    \<and> (\<exists>vg_aggregate painted.
          aggregate_density vert_count density_vertex_groups = Inr vg_aggregate
          \<and> paint_density kd_find vg_aggregate (enumerate 0 haircap_world_coords) vc_data
              = Inr painted
          \<and> (\<forall>i < length haircap_world_coords.
                painted ! i = (vg_aggregate ! kd_find (haircap_world_coords ! i),
                               vg_aggregate ! kd_find (haircap_world_coords ! i),
                               vg_aggregate ! kd_find (haircap_world_coords ! i), 1)))"
proof -
  let ?agg = "map (\<lambda>v. np_clip (np_round
              (\<Sum>vg\<leftarrow>density_vertex_groups. case vg v of None \<Rightarrow> 0 | Some w \<Rightarrow> w) 4) 0 1)
            [0..<vert_count]"
  have a: "aggregate_density vert_count density_vertex_groups = Inr ?agg"
    by (rule aggregate_density_eq)
  have "\<forall>co \<in> set haircap_world_coords. kd_find co < length ?agg"
    using assms(1) by simp
  from paint_density_enumerate [OF this assms(2)] a
  have p: "\<exists>vg_aggregate painted.
          aggregate_density vert_count density_vertex_groups = Inr vg_aggregate
          \<and> paint_density kd_find vg_aggregate (enumerate 0 haircap_world_coords) vc_data
              = Inr painted
          \<and> (\<forall>i < length haircap_world_coords.
                painted ! i = (vg_aggregate ! kd_find (haircap_world_coords ! i),
                               vg_aggregate ! kd_find (haircap_world_coords ! i),
                               vg_aggregate ! kd_find (haircap_world_coords ! i), 1))"
    by blast
  have c: "np_clip y 0 1 = (if y < 0 then 0 else if 1 < y then 1 else y)"
    by (simp add: np_clip_def)
  show ?thesis
    using a p c np_round_4_near [of x] np_round_4_decimals [of x] np_clip_unit [of y] by blast
qed

theorem C9_aggregate_density_witness:
  "aggregate_density 2 [[0 \<mapsto> 0.3], [0 \<mapsto> 0.4, 1 \<mapsto> 2]] = Inr [0.7, 1]
   \<and> paint_density (\<lambda>co. 0) [0.7, 1] (enumerate 0 [(0, 0, 0)]) [(1, 1, 1, 1)]
       = Inr [(0.7, 0.7, 0.7, 1)]"
proof -
  have "aggregate_density 2 [[0 \<mapsto> 0.3], [0 \<mapsto> 0.4, 1 \<mapsto> 2]] = Inr [0.7, 1]"
    using C9_aggregate_density [where haircap_world_coords = "[(0, 0, 0)]"
        and kd_find = "\<lambda>co. 0" and vert_count = 2 and vc_data = "[(1, 1, 1, 1)]"
        and density_vertex_groups = "[[0 \<mapsto> 0.3], [0 \<mapsto> 0.4, 1 \<mapsto> 2]]"
        and x = "0.7" and y = "0.7"]
    by (simp add: np_round_def rint_def np_clip_def upt_conv_Cons)
  then show ?thesis by (simp add: enumerate_eq_zip Let_def)
qed

lemma add_haircap_total:
  assumes "\<forall>co \<in> set haircap_world_coords. kd_find co < vert_count"
    and "length haircap_world_coords \<le> length vc_data"
    and "\<forall>e \<in> set (bm_edges bm). is_boundary e \<longrightarrow>
           fst (verts e) < length vc_data \<and> snd (verts e) < length vc_data"
  shows "\<exists>colors.
     add_haircap vert_count density_vertex_groups kd_find haircap_world_coords vc_data bm
       = Inr colors"
proof -
  let ?agg = "map (\<lambda>v. np_clip (np_round
              (\<Sum>vg\<leftarrow>density_vertex_groups. case vg v of None \<Rightarrow> 0 | Some w \<Rightarrow> w) 4) 0 1)
            [0..<vert_count]"
  have a: "aggregate_density vert_count density_vertex_groups = Inr ?agg"
    by (rule aggregate_density_eq)
  have "\<forall>co \<in> set haircap_world_coords. kd_find co < length ?agg"
    using assms(1) by simp
  from paint_density_enumerate [OF this assms(2)] obtain painted where
    p: "paint_density kd_find ?agg (enumerate 0 haircap_world_coords) vc_data = Inr painted"
    and l: "length painted = length vc_data" by blast
  from zero_boundary_total [of "bm_edges bm" painted] assms(3) l
  obtain colors where "zero_boundary (bm_edges bm) painted = Inr colors" by auto
  with a p show ?thesis by (simp add: add_haircap_def)
qed

text \<open>
  C8: whenever \<open>add_haircap\<close> completes, both vertices of every boundary edge of the
  haircap mesh carry the colour \<open>(0, 0, 0, 1)\<close>, whatever the density vertex groups are.
  It completes whenever the KD tree returns body vertex indices and \<open>vc.data\<close> has an
  entry for every haircap vertex and for both vertices of every boundary edge.
\<close>

theorem C8_boundary_vertices_black:
  "(add_haircap vert_count density_vertex_groups kd_find haircap_world_coords vc_data bm
       = Inr colors \<longrightarrow>
     (\<forall>e \<in> set (bm_edges bm). is_boundary e \<longrightarrow>
        fst (verts e) < length colors \<and> snd (verts e) < length colors
        \<and> colors ! fst (verts e) = (0, 0, 0, 1) \<and> colors ! snd (verts e) = (0, 0, 0, 1)))
   \<and> ((\<forall>co \<in> set haircap_world_coords. kd_find co < vert_count)
       \<and> length haircap_world_coords \<le> length vc_data
       \<and> (\<forall>e \<in> set (bm_edges bm). is_boundary e \<longrightarrow>
             fst (verts e) < length vc_data \<and> snd (verts e) < length vc_data)
      \<longrightarrow> (\<exists>colors'.
            add_haircap vert_count density_vertex_groups kd_find haircap_world_coords vc_data bm
              = Inr colors'))"
proof (intro conjI impI)
  assume "add_haircap vert_count density_vertex_groups kd_find haircap_world_coords vc_data bm
       = Inr colors"
  then obtain painted where "zero_boundary (bm_edges bm) painted = Inr colors"
    by (auto simp: add_haircap_def split: sum.splits)
  from zero_boundary_result [OF this]
  show "\<forall>e \<in> set (bm_edges bm). is_boundary e \<longrightarrow>
        fst (verts e) < length colors \<and> snd (verts e) < length colors
        \<and> colors ! fst (verts e) = (0, 0, 0, 1) \<and> colors ! snd (verts e) = (0, 0, 0, 1)"
    by simp
next
  assume "(\<forall>co \<in> set haircap_world_coords. kd_find co < vert_count)
       \<and> length haircap_world_coords \<le> length vc_data
       \<and> (\<forall>e \<in> set (bm_edges bm). is_boundary e \<longrightarrow>
             fst (verts e) < length vc_data \<and> snd (verts e) < length vc_data)"
  then show "\<exists>colors'.
            add_haircap vert_count density_vertex_groups kd_find haircap_world_coords vc_data bm
              = Inr colors'"
    using add_haircap_total by blast
qed

theorem C8_boundary_vertices_black_witness:
  "add_haircap 1 [[0 \<mapsto> 0.3], [0 \<mapsto> 0.4]] (\<lambda>co. 0) [(0, 0, 0), (1, 0, 0), (0, 1, 0)]
      [(1, 1, 1, 1), (1, 1, 1, 1), (1, 1, 1, 1)]
      \<lparr>bm_verts = [], bm_edges = [\<lparr>verts = (0, 1), is_boundary = True\<rparr>,
                                  \<lparr>verts = (1, 2), is_boundary = False\<rparr>]\<rparr>
     = Inr [(0, 0, 0, 1), (0, 0, 0, 1), (0.7, 0.7, 0.7, 1)]
   \<and> is_boundary \<lparr>verts = (0, 1), is_boundary = True\<rparr>
   \<and> [(0, 0, 0, 1), (0, 0, 0, 1), (0.7 :: real, 0.7 :: real, 0.7 :: real, 1 :: real)] ! 0
       = (0, 0, 0, 1)
   \<and> [(0, 0, 0, 1), (0, 0, 0, 1), (0.7 :: real, 0.7 :: real, 0.7 :: real, 1 :: real)] ! 1
       = (0, 0, 0, 1)"
proof -
  have r: "add_haircap 1 [[0 \<mapsto> 0.3], [0 \<mapsto> 0.4]] (\<lambda>co. 0) [(0, 0, 0), (1, 0, 0), (0, 1, 0)]
      [(1, 1, 1, 1), (1, 1, 1, 1), (1, 1, 1, 1)]
      \<lparr>bm_verts = [], bm_edges = [\<lparr>verts = (0, 1), is_boundary = True\<rparr>,
                                  \<lparr>verts = (1, 2), is_boundary = False\<rparr>]\<rparr>
     = Inr [(0, 0, 0, 1), (0, 0, 0, 1), (0.7, 0.7, 0.7, 1)]"
    by (simp add: add_haircap_def aggregate_density_eq np_round_def rint_def np_clip_def
        enumerate_eq_zip upt_conv_Cons Let_def)
  show ?thesis
    using r C8_boundary_vertices_black [of 1 "[[0 \<mapsto> 0.3], [0 \<mapsto> 0.4]]" "\<lambda>co. 0"
        "[(0, 0, 0), (1, 0, 0), (0, 1, 0)]" "[(1, 1, 1, 1), (1, 1, 1, 1), (1, 1, 1, 1)]"
        "\<lparr>bm_verts = [], bm_edges = [\<lparr>verts = (0, 1), is_boundary = True\<rparr>,
                                      \<lparr>verts = (1, 2), is_boundary = False\<rparr>]\<rparr>"
        "[(0, 0, 0, 1), (0, 0, 0, 1), (0.7, 0.7, 0.7, 1)]"]
    by simp
qed


end
